theory Spec2Isabelle
  imports Complex_Main
begin

section \<open>The ArashTarun drive agent (src/src/ArashTarun.py)\<close>

text \<open>
  The agent is a Python class with three mutable fields that matter (\<open>path\<close>,
  \<open>path_move_index\<close>, \<open>need_to_find_target_pod\<close>) and one method the simulator calls
  per tick, \<open>get_next_move\<close>. Mutation of \<open>self\<close> is explicit state passing, Python
  exceptions are values of \<open>py_error\<close>, and the planning loop, which need not end, is a
  partial function into \<open>option\<close> (\<open>None\<close>: the loop never returns).

  Conventions of the embedding:
  \<^item> Python integers are \<open>int\<close>. A coordinate \<open>[x, y]\<close> of the sensor data (a two-element
    list read only through indices 0 and 1) is a pair of integers.
  \<^item> A Python \<open>float\<close> is an IEEE double. The only floats of the program are results of
    \<open>math.sqrt\<close> on a non-negative integer: finite, non-negative doubles, each modelled as
    the real number it denotes, so that \<open><\<close> and \<open>==\<close> on them are those of the reals. The
    conversion of the integer to a double rounds to 53 bits, ties to even, and raises
    \<open>OverflowError\<close> beyond the double range; the square root is correctly rounded.
  \<^item> \<open>print\<close> has no effect on the state and is left out.
\<close>

subsection \<open>Python primitives\<close>

datatype py_error = IndexError | ValueError | OverflowError | AdvancedModeException

text \<open>
  The subscript \<open>xs[i]\<close>. Positions \<open>0 .. len-1\<close> read from the front, positions
  \<open>-len .. -1\<close> read from the back, any other position raises \<open>IndexError\<close>.
\<close>

definition py_get :: "'a list \<Rightarrow> int \<Rightarrow> py_error + 'a" where
  "py_get xs i =
     (if 0 \<le> i \<and> i < int (length xs) then Inr (xs ! nat i)
      else if i < 0 \<and> - int (length xs) \<le> i then Inr (xs ! nat (int (length xs) + i))
      else Inl IndexError)"

text \<open>\<open>min(ds)\<close>: the first smallest element, \<open>ValueError\<close> on the empty list.\<close>

fun py_min :: "real list \<Rightarrow> py_error + real" where
  "py_min [] = Inl ValueError"
| "py_min (d # ds) = Inr (fold (\<lambda>v m. if v < m then v else m) ds d)"

text \<open>\<open>ds.index(v)\<close>: the first position holding \<open>v\<close>, \<open>ValueError\<close> when there is none.\<close>

fun py_index :: "real list \<Rightarrow> real \<Rightarrow> py_error + nat" where
  "py_index [] v = Inl ValueError"
| "py_index (d # ds) v =
     (if d = v then Inr 0
      else case py_index ds v of Inl e \<Rightarrow> Inl e | Inr i \<Rightarrow> Inr (Suc i))"

text \<open>\<open>xs.pop(i)\<close> for an index in range: the element and the list without it.\<close>

definition py_pop :: "'a list \<Rightarrow> nat \<Rightarrow> 'a \<times> 'a list" where
  "py_pop xs i = (xs ! i, take i xs @ drop (Suc i) xs)"

subsection \<open>\<open>math.sqrt\<close> of an integer\<close>

text \<open>\<open>n.bit_length()\<close>: the number of binary digits of \<open>n\<close>.\<close>

fun bit_length :: "nat \<Rightarrow> nat" where
  "bit_length n = (if n = 0 then 0 else Suc (bit_length (n div 2)))"

declare bit_length.simps [simp del]

text \<open>\<open>n / 2 ^ sh\<close> rounded to the nearest integer, a tie going to the even one.\<close>

definition round_half_even :: "nat \<Rightarrow> nat \<Rightarrow> nat" where
  "round_half_even n sh =
     (let q = n div 2 ^ sh; r = n mod 2 ^ sh
      in if 2 ^ sh < 2 * r \<or> (2 * r = 2 ^ sh \<and> odd q) then q + 1 else q)"

text \<open>
  The double nearest to the integer \<open>n\<close>, itself an integer: \<open>n\<close> is cut to its 53 leading
  bits, rounded half to even. The result is a double only below \<open>2 ^ 1024\<close>.
\<close>

definition float_of_nat :: "nat \<Rightarrow> nat" where
  "float_of_nat n = (let sh = bit_length n - 53 in round_half_even n sh * 2 ^ sh)"

text \<open>The integer square root, rounded down.\<close>

fun isqrt :: "nat \<Rightarrow> nat" where
  "isqrt n =
     (if n < 2 then n
      else (let r = 2 * isqrt (n div 4) in if (r + 1) * (r + 1) \<le> n then r + 1 else r))"

declare isqrt.simps [simp del]

text \<open>
  \<open>q / 2\<close> rounded to the nearest integer, where \<open>q\<close> is a root rounded down and \<open>sticky\<close>
  says that the root was not exact: above an odd \<open>q\<close> the value lies beyond the half and
  goes up, at an odd \<open>q\<close> it is a tie and goes to the even neighbour.
\<close>

definition round_to_even :: "nat \<Rightarrow> bool \<Rightarrow> nat" where
  "round_to_even q sticky = q div 2 + (if odd q \<and> (sticky \<or> odd (q div 2)) then 1 else 0)"

text \<open>
  The correctly rounded square root of a double whose value is the integer \<open>d\<close>. The
  argument is scaled by a power of four that brings its root to 54 bits (between
  \<open>2 ^ 53\<close> and \<open>2 ^ 54\<close>); that root, rounded down, is rounded to 53 bits and scaled back.
\<close>

definition sqrt_double :: "nat \<Rightarrow> real" where
  "sqrt_double d =
     (if d = 0 then 0
      else
        (let h = (bit_length d + 1) div 2 in
         if h \<le> 54 then
           (let s = d * 4 ^ (54 - h); q = isqrt s
            in real (round_to_even q (q * q \<noteq> s)) * 2 / 2 ^ (54 - h))
         else
           (let s = d div 4 ^ (h - 54); q = isqrt s
            in real (round_to_even q (q * q \<noteq> s \<or> d mod 4 ^ (h - 54) \<noteq> 0)) * 2 * 2 ^ (h - 54))))"

text \<open>
  \<open>math.sqrt(z)\<close> for a Python integer \<open>z\<close>: \<open>ValueError\<close> (math domain error) below zero,
  \<open>OverflowError\<close> (int too large to convert to float) when the nearest double would be
  \<open>2 ^ 1024\<close> or more, else the rounded root of the nearest double.
\<close>

definition math_sqrt :: "int \<Rightarrow> py_error + real" where
  "math_sqrt z =
     (if z < 0 then Inl ValueError
      else (let d = float_of_nat (nat z)
            in if 2 ^ 1024 \<le> d then Inl OverflowError else Inr (sqrt_double d)))"

subsection \<open>DriveMove and DriveState (src.Constants, src.DriveState)\<close>

text \<open>
  Modelled from the spec: the enumeration \<open>DriveMove\<close> of src/Constants.py, which is not
  among the sources. Its members are the five moves of the spec and the two pod moves
  reserved for advanced mode, which the docstring of \<open>get_next_move\<close> lists as well;
  \<open>all_moves\<close> is the order in which \<open>for move in DriveMove\<close> visits them, taken as
  the spec lists the moves. No statement below depends on the relative order of \<open>LEFT\<close>
  and \<open>RIGHT\<close>, which the docstring lists the other way round.
\<close>

datatype DriveMove = NONE | UP | DOWN | LEFT | RIGHT | LIFT_POD | DROP_POD

definition all_moves :: "DriveMove list" where
  "all_moves = [NONE, UP, DOWN, LEFT, RIGHT, LIFT_POD, DROP_POD]"

text \<open>
  Modelled from the spec: the class \<open>DriveState\<close> of src/DriveState.py, which is not among
  the sources: an immutable coordinate, equal and hashed by value, with
  \<open>get_next_state_from_move\<close> adding the fixed delta of the move (UP is +1 in y, DOWN -1
  in y, RIGHT +1 in x, LEFT -1 in x, any other move stays in place) and \<open>to_tuple\<close>.
\<close>

record DriveState =
  x :: int
  y :: int

definition to_tuple :: "DriveState \<Rightarrow> int \<times> int" where
  "to_tuple s = (x s, y s)"

fun get_next_state_from_move :: "DriveState \<Rightarrow> DriveMove \<Rightarrow> int \<times> int" where
  "get_next_state_from_move s UP = (x s, y s + 1)"
| "get_next_state_from_move s DOWN = (x s, y s - 1)"
| "get_next_state_from_move s RIGHT = (x s + 1, y s)"
| "get_next_state_from_move s LEFT = (x s - 1, y s)"
| "get_next_state_from_move s _ = (x s, y s)"

subsection \<open>Sensor data and the agent\<close>

text \<open>The dictionary \<open>sensor_data\<close>, with the keys the docstring of \<open>get_next_move\<close> lists.\<close>

record sensor_data =
  FIELD_BOUNDARIES :: "(int \<times> int) list"
  DRIVE_LOCATIONS :: "(int \<times> int) list"
  POD_LOCATIONS :: "(int \<times> int) list"
  PLAYER_LOCATION :: "int \<times> int"
  GOAL_LOCATIONS :: "(int \<times> int) list"
  GOAL_LOCATION :: "int \<times> int"
  TARGET_POD_LOCATION :: "int \<times> int"
  DRIVE_LIFTED_POD_PAIRS :: "(int \<times> int) list"

record agent =
  game_id :: int
  need_to_find_target_pod :: bool
  path :: "DriveState list"
  field_limits :: "(int \<times> int) list"
  path_move_index :: int

definition init :: "int \<Rightarrow> bool \<Rightarrow> agent" where
  "init gid is_advanced_mode =
     \<lparr>game_id = gid, need_to_find_target_pod = is_advanced_mode,
      path = [], field_limits = [], path_move_index = 0\<rparr>"

subsection \<open>Goal selection and the open-node choice\<close>

text \<open>The expression \<open>math.sqrt((g[0]-c[0])**2 + (g[1]-c[1])**2)\<close> of both selections.\<close>

definition euclid :: "int \<times> int \<Rightarrow> int \<times> int \<Rightarrow> py_error + real" where
  "euclid g c = math_sqrt ((fst g - fst c)\<^sup>2 + (snd g - snd c)\<^sup>2)"

text \<open>The loop filling \<open>dists\<close> in \<open>select_closest_goal\<close>; the first distance to raise ends it.\<close>

fun goal_dists :: "(int \<times> int) list \<Rightarrow> int \<times> int \<Rightarrow> py_error + real list" where
  "goal_dists [] current_location = Inr []"
| "goal_dists (goal # goals) current_location =
     (case euclid goal current_location of
        Inl e \<Rightarrow> Inl e
      | Inr d \<Rightarrow> (case goal_dists goals current_location of
                    Inl e \<Rightarrow> Inl e
                  | Inr ds \<Rightarrow> Inr (d # ds)))"

definition select_closest_goal ::
  "(int \<times> int) list \<Rightarrow> int \<times> int \<Rightarrow> py_error + (int \<times> int)" where
  "select_closest_goal goal_list current_location =
     (case goal_dists goal_list current_location of
        Inl e \<Rightarrow> Inl e
      | Inr dists \<Rightarrow> (case py_min dists of
                        Inl e \<Rightarrow> Inl e
                      | Inr m \<Rightarrow> (case py_index dists m of
                                    Inl e \<Rightarrow> Inl e
                                  | Inr i \<Rightarrow> py_get goal_list (int i))))"

text \<open>
  The loop filling \<open>dists\<close> in \<open>select_open_node\<close>: for each path of the worklist, in
  order, \<open>path[-1]\<close> and then its distance; the first of these to raise ends the loop.
\<close>

fun node_dists :: "DriveState list list \<Rightarrow> int \<times> int \<Rightarrow> py_error + real list" where
  "node_dists [] goal = Inr []"
| "node_dists (p # ps) goal =
     (case py_get p (- 1) of
        Inl e \<Rightarrow> Inl e
      | Inr node \<Rightarrow> (case euclid goal (to_tuple node) of
                       Inl e \<Rightarrow> Inl e
                     | Inr d \<Rightarrow> (case node_dists ps goal of
                                   Inl e \<Rightarrow> Inl e
                                 | Inr ds \<Rightarrow> Inr (d # ds))))"

text \<open>Returns the chosen path and the worklist after the \<open>pop\<close>.\<close>

definition select_open_node ::
  "DriveState list list \<Rightarrow> int \<times> int \<Rightarrow> py_error + (DriveState list \<times> DriveState list list)" where
  "select_open_node paths goal =
     (case node_dists paths goal of
        Inl e \<Rightarrow> Inl e
      | Inr dists \<Rightarrow> (case py_min dists of
                        Inl e \<Rightarrow> Inl e
                      | Inr m \<Rightarrow> (case py_index dists m of
                                    Inl e \<Rightarrow> Inl e
                                  | Inr i \<Rightarrow> Inr (py_pop paths i))))"

subsection \<open>The planner\<close>

text \<open>Each move's state is inserted at the head, so the list is in reverse move order.\<close>

definition list_all_next_possible_states :: "DriveState \<Rightarrow> DriveState list" where
  "list_all_next_possible_states s =
     fold (\<lambda>move next_states.
             (case get_next_state_from_move s move of (a, b) \<Rightarrow> \<lparr>x = a, y = b\<rparr>) # next_states)
          all_moves []"

definition is_state_in_bounds :: "DriveState \<Rightarrow> sensor_data \<Rightarrow> bool" where
  "is_state_in_bounds s sd \<longleftrightarrow> (x s, y s) \<notin> set (FIELD_BOUNDARIES sd)"

datatype search_result = Found "DriveState list" | NotFound | Raised py_error

text \<open>
  The \<open>while len(paths) > 0\<close> loop of \<open>dfs_solve_path_to_goal\<close>, on the visited set and
  the worklist. \<open>Found p\<close> is the \<open>return\<close> inside the loop, \<open>NotFound\<close> the exit through
  the loop condition, \<open>Raised\<close> an exception of \<open>select_open_node\<close>, and \<open>None\<close> a loop
  that runs forever. The read \<open>current_path[-1]\<close> is \<open>last\<close>: it cannot raise, since
  \<open>select_open_node\<close> has read the last state of every path of the worklist before.
\<close>

partial_function (option) dfs_loop ::
  "sensor_data \<Rightarrow> int \<times> int \<Rightarrow> DriveState set \<Rightarrow> DriveState list list \<Rightarrow> search_result option" where
  "dfs_loop sd goal visited_states paths =
     (if length paths > 0 then
        (case select_open_node paths goal of
           Inl e \<Rightarrow> Some (Raised e)
         | Inr (current_path, rest) \<Rightarrow>
             (let curr_state = last current_path in
              if x curr_state = fst goal \<and> y curr_state = snd goal then Some (Found current_path)
              else
                (let visited' = insert curr_state visited_states in
                 dfs_loop sd goal visited'
                   (rest @ map (\<lambda>state. current_path @ [state])
                             (filter (\<lambda>state. state \<notin> visited' \<and> is_state_in_bounds state sd)
                                (list_all_next_possible_states curr_state))))))
      else Some NotFound)"

declare dfs_loop.simps [code]

text \<open>
  \<open>dfs_solve_path_to_goal\<close> stores the plan in \<open>self.path\<close> on success and leaves the
  agent as it was otherwise; the result is the exception, if any, and the agent.
\<close>

definition dfs_solve_path_to_goal ::
  "agent \<Rightarrow> sensor_data \<Rightarrow> int \<times> int \<Rightarrow> (py_error option \<times> agent) option" where
  "dfs_solve_path_to_goal a sd goal =
     (let start_state = PLAYER_LOCATION sd in
      case dfs_loop sd goal {} [[\<lparr>x = fst start_state, y = snd start_state\<rparr>]] of
        None \<Rightarrow> None
      | Some (Found current_path) \<Rightarrow> Some (None, a\<lparr>path := current_path\<rparr>)
      | Some NotFound \<Rightarrow> Some (None, a)
      | Some (Raised e) \<Rightarrow> Some (Some e, a))"

subsection \<open>The executor\<close>

definition will_next_state_collide :: "DriveState \<Rightarrow> sensor_data \<Rightarrow> bool" where
  "will_next_state_collide s sd \<longleftrightarrow>
     list_ex (\<lambda>rob_locs. fst rob_locs = x s \<and> snd rob_locs = y s) (DRIVE_LOCATIONS sd)"

text \<open>
  The cursor is advanced between the two reads of \<open>self.path\<close>, so an \<open>IndexError\<close> of the
  second read leaves it advanced, and one of the first read leaves it as it was.
\<close>

definition get_move_for_next_state_in_path ::
  "agent \<Rightarrow> (py_error + (DriveMove \<times> DriveState)) \<times> agent" where
  "get_move_for_next_state_in_path a =
     (case py_get (path a) (path_move_index a) of
        Inl e \<Rightarrow> (Inl e, a)
      | Inr current_state \<Rightarrow>
          (let a' = a\<lparr>path_move_index := path_move_index a + 1\<rparr> in
           case py_get (path a') (path_move_index a') of
             Inl e \<Rightarrow> (Inl e, a')
           | Inr next_state \<Rightarrow>
               (case find (\<lambda>move. get_next_state_from_move current_state move = to_tuple next_state)
                          all_moves of
                  Some move \<Rightarrow> (Inr (move, next_state), a')
                | None \<Rightarrow> (Inr (NONE, next_state), a'))))"

text \<open>
  One tick. \<open>None\<close>: the call never returns (the planner runs forever); otherwise the
  move or the exception, and the agent after the call.
\<close>

definition get_next_move ::
  "agent \<Rightarrow> sensor_data \<Rightarrow> ((py_error + DriveMove) \<times> agent) option" where
  "get_next_move a sd =
     (case (if length (path a) = 0 then
              (if need_to_find_target_pod a then Some (Some AdvancedModeException, a)
               else (case select_closest_goal (GOAL_LOCATIONS sd) (PLAYER_LOCATION sd) of
                       Inl e \<Rightarrow> Some (Some e, a)
                     | Inr goal \<Rightarrow> dfs_solve_path_to_goal a sd goal))
            else Some (None, a)) of
        None \<Rightarrow> None
      | Some (Some e, a1) \<Rightarrow> Some (Inl e, a1)
      | Some (None, a1) \<Rightarrow>
          (case get_move_for_next_state_in_path a1 of
             (Inl e, a2) \<Rightarrow> Some (Inl e, a2)
           | (Inr (next_move, next_state), a2) \<Rightarrow>
               if will_next_state_collide next_state sd
               then Some (Inr NONE, a2\<lparr>path_move_index := path_move_index a2 - 1\<rparr>)
               else Some (Inr next_move, a2)))"

definition is_player_drive_carrying_a_pod :: "agent \<Rightarrow> sensor_data \<Rightarrow> bool" where
  "is_player_drive_carrying_a_pod a sd \<longleftrightarrow>
     game_id a \<in> set (map fst (DRIVE_LIFTED_POD_PAIRS sd))"

subsection \<open>Notions used in the statements\<close>

text \<open>
  The \<open>for move in DriveMove\<close> loop of \<open>get_move_for_next_state_in_path\<close> on its own: the
  first move, in enumeration order, that leads from one state to the other, \<open>NONE\<close> when
  there is none.
\<close>

definition move_between :: "DriveState \<Rightarrow> DriveState \<Rightarrow> DriveMove" where
  "move_between cur nxt =
     (case find (\<lambda>move. get_next_state_from_move cur move = to_tuple nxt) all_moves of
        Some move \<Rightarrow> move | None \<Rightarrow> NONE)"

text \<open>A sensor snapshot of basic mode, and an agent in the middle of a plan.\<close>

definition snapshot ::
  "(int \<times> int) list \<Rightarrow> (int \<times> int) list \<Rightarrow> int \<times> int \<Rightarrow> (int \<times> int) list \<Rightarrow> sensor_data" where
  "snapshot boundaries drives player goals =
     \<lparr>FIELD_BOUNDARIES = boundaries, DRIVE_LOCATIONS = drives, POD_LOCATIONS = [],
      PLAYER_LOCATION = player, GOAL_LOCATIONS = goals, GOAL_LOCATION = (0, 0),
      TARGET_POD_LOCATION = (0, 0), DRIVE_LIFTED_POD_PAIRS = []\<rparr>"

definition agent_with :: "DriveState list \<Rightarrow> int \<Rightarrow> agent" where
  "agent_with p i = (init 0 False)\<lparr>path := p, path_move_index := i\<rparr>"

text \<open>
  The squared distance, an integer; the distance as \<open>math.sqrt\<close> computes it from there
  (whenever it does not raise); and the exact Euclidean distance.
\<close>

definition sqdist :: "int \<times> int \<Rightarrow> int \<times> int \<Rightarrow> int" where
  "sqdist g c = (fst g - fst c)\<^sup>2 + (snd g - snd c)\<^sup>2"

definition double_dist :: "int \<times> int \<Rightarrow> int \<times> int \<Rightarrow> real" where
  "double_dist g c = sqrt_double (float_of_nat (nat (sqdist g c)))"

definition exact_dist :: "int \<times> int \<Rightarrow> int \<times> int \<Rightarrow> real" where
  "exact_dist g c = sqrt (real_of_int (sqdist g c))"

text \<open>
  The worklist entries one iteration of the planning loop appends, the states reachable
  from the start without entering a boundary cell, the coordinate as a state, and what a
  plan of the planner is: it starts at the start, each step goes to a different next
  possible state, and every state after the first is in bounds.
\<close>

definition successor_paths ::
  "sensor_data \<Rightarrow> DriveState set \<Rightarrow> DriveState list \<Rightarrow> DriveState list list" where
  "successor_paths sd visited' current_path =
     map (\<lambda>state. current_path @ [state])
       (filter (\<lambda>state. state \<notin> visited' \<and> is_state_in_bounds state sd)
          (list_all_next_possible_states (last current_path)))"

definition state_of :: "int \<times> int \<Rightarrow> DriveState" where
  "state_of c = \<lparr>x = fst c, y = snd c\<rparr>"

inductive_set reachable :: "sensor_data \<Rightarrow> DriveState \<Rightarrow> DriveState set"
  for sd :: sensor_data and start :: DriveState where
  reachable_start: "start \<in> reachable sd start"
| reachable_step: "s \<in> reachable sd start \<Longrightarrow> t \<in> set (list_all_next_possible_states s) \<Longrightarrow>
     is_state_in_bounds t sd \<Longrightarrow> t \<in> reachable sd start"

definition valid_plan :: "sensor_data \<Rightarrow> DriveState \<Rightarrow> DriveState list \<Rightarrow> bool" where
  "valid_plan sd start p \<longleftrightarrow>
     p \<noteq> [] \<and> hd p = start \<and>
     (\<forall>i. Suc i < length p \<longrightarrow>
        p ! Suc i \<in> set (list_all_next_possible_states (p ! i)) \<and>
        p ! Suc i \<noteq> p ! i \<and> is_state_in_bounds (p ! Suc i) sd)"

text \<open>
  The invariant of the planning loop behind completeness: the goal is not visited, the
  start is visited or ends a path of the worklist, and so does every in-bounds next state
  of a visited state.
\<close>

definition frontier_inv ::
  "sensor_data \<Rightarrow> int \<times> int \<Rightarrow> DriveState \<Rightarrow> DriveState set \<Rightarrow> DriveState list list \<Rightarrow> bool" where
  "frontier_inv sd goal start vs ps \<longleftrightarrow>
      (\<forall>p \<in> set ps. p \<noteq> []) \<and> state_of goal \<notin> vs \<and>
      (start \<in> vs \<or> start \<in> last ` set ps) \<and>
      (\<forall>s \<in> vs. \<forall>t \<in> set (list_all_next_possible_states s).
          is_state_in_bounds t sd \<longrightarrow> t \<in> vs \<or> t \<in> last ` set ps)"

text \<open>
  Snapshots for concrete runs: a corridor of two free cells, a player walled in, a wall
  between player and goal, and an unbounded field whose goal is walled in, with the
  invariant of the planning loop on it (the worklist always holds a rightmost path,
  which ends at least two cells away from the goal).
\<close>

definition corridor :: sensor_data where
  "corridor = snapshot [(- 1, 0), (2, 0), (0, 1), (1, 1), (0, - 1), (1, - 1)] [] (0, 0) [(1, 0)]"

definition walled_in :: sensor_data where
  "walled_in = snapshot [(1, 0), (- 1, 0), (0, 1), (0, - 1)] [] (0, 0) [(5, 5)]"

definition detour :: sensor_data where
  "detour = snapshot [(1, 0)] [] (0, 0) [(2, 0)]"

definition open_field :: sensor_data where
  "open_field = snapshot [(1, 0), (- 1, 0), (0, 1), (0, - 1)] [] (2, 0) [(0, 0)]"

definition far :: "DriveState \<Rightarrow> bool" where
  "far s \<longleftrightarrow> 2 \<le> \<bar>x s\<bar> + \<bar>y s\<bar>"

definition escape_inv :: "DriveState set \<Rightarrow> DriveState list list \<Rightarrow> bool" where
  "escape_inv vs ps \<longleftrightarrow>
     (\<forall>p \<in> set ps. p \<noteq> [] \<and> far (last p)) \<and>
     (\<exists>p \<in> set ps. 2 \<le> x (last p) \<and> (\<forall>v \<in> vs. x v \<le> x (last p)) \<and>
        (\<forall>q \<in> set ps. x (last q) \<le> x (last p)))"

section \<open>Properties\<close>

subsection \<open>The double nearest to an integer, and its rounded root\<close>

lemma bit_length_bounds: "0 < n \<Longrightarrow> 2 ^ (bit_length n - 1) \<le> n \<and> n < 2 ^ bit_length n"
proof (induction n rule: bit_length.induct)
  case (1 n)
  show ?case
  proof (cases "n div 2 = 0")
    case True
    with "1.prems" have "n = 1" by (simp add: div_eq_0_iff) 
    then show ?thesis by (simp add: bit_length.simps [of "Suc 0"] bit_length.simps [of 0])
  next
    case False
    then have pos: "0 < n div 2" by simp
    from "1.IH" [OF _ pos] "1.prems"
    have ih: "2 ^ (bit_length (n div 2) - 1) \<le> n div 2" "n div 2 < 2 ^ bit_length (n div 2)"
      by simp_all
    have bl: "bit_length n = Suc (bit_length (n div 2))"
      using "1.prems" by (simp add: bit_length.simps [of n])
    have pos': "0 < bit_length (n div 2)"
      using pos by (simp add: bit_length.simps [of "n div 2"])
    then have "(2::nat) ^ bit_length (n div 2) = 2 * 2 ^ (bit_length (n div 2) - 1)"
      by (cases "bit_length (n div 2)") simp_all
    with ih(1) have "2 ^ bit_length (n div 2) \<le> 2 * (n div 2)" by simp
    also have "\<dots> \<le> n" by simp
    finally have lo: "2 ^ (bit_length n - 1) \<le> n" by (simp add: bl)
    from ih(2) have "n div 2 + 1 \<le> 2 ^ bit_length (n div 2)" by simp
    then have "2 * (n div 2) + 2 \<le> 2 * 2 ^ bit_length (n div 2)" by simp
    moreover have "n < 2 * (n div 2) + 2" by linarith
    ultimately have hi: "n < 2 ^ bit_length n" by (simp add: bl)
    from lo hi show ?thesis ..
  qed
qed

lemma bit_length_le: "n < 2 ^ k \<Longrightarrow> bit_length n \<le> k"
proof (cases "n = 0")
  case True
  then show ?thesis by (simp add: bit_length.simps [of 0])
next
  case False
  assume "n < 2 ^ k"
  from False have "0 < n" by simp
  from bit_length_bounds [OF this] have "2 ^ (bit_length n - 1) \<le> n" ..
  from this \<open>n < 2 ^ k\<close> have "(2::nat) ^ (bit_length n - 1) < 2 ^ k" by (rule le_less_trans)
  then have "bit_length n - 1 < k" by simp
  then show ?thesis by simp
qed

lemma bit_length_ge: "2 ^ k \<le> n \<Longrightarrow> k < bit_length n"
proof -
  assume a: "2 ^ k \<le> n"
  then have "0 < n" by (metis not_gr_zero not_numeral_le_zero power_not_zero le_zero_eq zero_neq_numeral)
  from bit_length_bounds [OF this] have "n < 2 ^ bit_length n" ..
  from a this have "(2::nat) ^ k < 2 ^ bit_length n" by (rule le_less_trans)
  then show ?thesis by simp
qed

lemma isqrt_bounds: "isqrt n * isqrt n \<le> n \<and> n < (isqrt n + 1) * (isqrt n + 1)"
proof (induction n rule: isqrt.induct)
  case (1 n)
  show ?case
  proof (cases "n < 2")
    case True
    then have "n = 0 \<or> n = 1" by linarith
    then show ?thesis by (auto simp: isqrt.simps [of 0] isqrt.simps [of "Suc 0"])
  next
    case False
    define s where "s = isqrt (n div 4)"
    from "1.IH" [OF False] have ih: "s * s \<le> n div 4" "n div 4 < (s + 1) * (s + 1)"
      by (simp_all add: s_def)
    have n4: "4 * (n div 4) \<le> n" "n < 4 * (n div 4) + 4" by linarith+
    have lo: "(2 * s) * (2 * s) \<le> n"
    proof -
      have "(2 * s) * (2 * s) = 4 * (s * s)" by simp
      also have "\<dots> \<le> 4 * (n div 4)" using ih(1) by simp
      finally show ?thesis using n4(1) by linarith
    qed
    have hi: "n < (2 * s + 2) * (2 * s + 2)"
    proof -
      from ih(2) have "n div 4 + 1 \<le> (s + 1) * (s + 1)" by simp
      then have "4 * (n div 4) + 4 \<le> 4 * ((s + 1) * (s + 1))" by simp
      also have "\<dots> = (2 * s + 2) * (2 * s + 2)" by (simp add: algebra_simps)
      finally show ?thesis using n4(2) by linarith
    qed
    have eq: "isqrt n = (if (2 * s + 1) * (2 * s + 1) \<le> n then 2 * s + 1 else 2 * s)"
      using False by (simp add: isqrt.simps [of n] s_def Let_def)
    show ?thesis
    proof (cases "(2 * s + 1) * (2 * s + 1) \<le> n")
      case True
      with eq have "isqrt n = 2 * s + 1" by simp
      with True hi show ?thesis by (simp add: algebra_simps)
    next
      case False
      with eq have "isqrt n = 2 * s" by simp
      with False lo show ?thesis by (simp add: algebra_simps)
    qed
  qed
qed

lemma round_half_even_zero: "round_half_even n 0 = n"
  by (simp add: round_half_even_def)

lemma round_half_even_bounds:
  "n div 2 ^ sh \<le> round_half_even n sh \<and> round_half_even n sh \<le> n div 2 ^ sh + 1"
  by (simp add: round_half_even_def Let_def)

lemma float_of_nat_exact: "n < 2 ^ 53 \<Longrightarrow> float_of_nat n = n"
proof -
  assume "n < 2 ^ 53"
  then have "bit_length n \<le> 53" by (rule bit_length_le)
  then show ?thesis by (simp add: float_of_nat_def round_half_even_zero)
qed

lemma float_of_nat_upper:
  assumes "n < 2 ^ b" and "53 \<le> b"
  shows "float_of_nat n \<le> 2 ^ b"
proof -
  let ?sh = "bit_length n - 53"
  from assms(1) have bl: "bit_length n \<le> b" by (rule bit_length_le)
  have "n < 2 ^ 53 * 2 ^ ?sh"
  proof (cases "bit_length n \<le> 53")
    case True
    then have "n < 2 ^ 53"
      by (metis bit_length_bounds bot_nat_0.not_eq_extremum le_less_trans less_le_trans
          one_le_numeral power_increasing zero_less_numeral zero_less_power not_less)
    then show ?thesis using True by simp
  next
    case False
    then have "0 < n" by (cases "n = 0") (simp_all add: bit_length.simps [of 0])
    from bit_length_bounds [OF this] have "n < 2 ^ bit_length n" ..
    also from False have "bit_length n = 53 + ?sh" by simp
    finally show ?thesis by (simp add: power_add)
  qed
  then have "n div 2 ^ ?sh < 2 ^ 53"
    by (simp add: less_mult_imp_div_less)
  with round_half_even_bounds [of n ?sh] have "round_half_even n ?sh \<le> 2 ^ 53" by linarith
  then have "float_of_nat n \<le> 2 ^ 53 * 2 ^ ?sh"
    by (simp add: float_of_nat_def Let_def)
  also have "\<dots> = 2 ^ (53 + ?sh)" by (simp add: power_add)
  also have "\<dots> \<le> 2 ^ b" using bl assms(2) by (intro power_increasing) auto
  finally show ?thesis .
qed

lemma round_half_even_up:
  assumes "0 < sh" and "round_half_even n sh = n div 2 ^ sh + 1"
  shows "n div 2 ^ sh * 2 ^ sh + 2 ^ (sh - 1) \<le> n"
proof -
  let ?q = "n div 2 ^ sh" and ?r = "n mod 2 ^ sh"
  from assms(1) have p: "(2::nat) ^ sh = 2 * 2 ^ (sh - 1)" by (cases sh) simp_all
  from assms(2) have "2 ^ sh \<le> 2 * ?r"
    by (auto simp: round_half_even_def Let_def split: if_splits)
  with p have "2 ^ (sh - 1) \<le> ?r" by simp
  moreover have "n = ?q * 2 ^ sh + ?r" by (rule div_mult_mod_eq [symmetric])
  ultimately show ?thesis by linarith
qed

lemma round_half_even_odd_up:
  assumes "0 < sh" and "n div 2 ^ sh * 2 ^ sh + 2 ^ (sh - 1) \<le> n" and "odd (n div 2 ^ sh)"
  shows "round_half_even n sh = n div 2 ^ sh + 1"
proof -
  let ?q = "n div 2 ^ sh" and ?r = "n mod 2 ^ sh"
  from assms(1) have p: "(2::nat) ^ sh = 2 * 2 ^ (sh - 1)" by (cases sh) simp_all
  have "n = ?q * 2 ^ sh + ?r" by (rule div_mult_mod_eq [symmetric])
  with assms(2) have "2 ^ (sh - 1) \<le> ?r" by linarith
  with p have "2 ^ sh \<le> 2 * ?r" by simp
  then have "2 ^ sh < 2 * ?r \<or> 2 * ?r = 2 ^ sh" by linarith
  with assms(3) show ?thesis by (auto simp: round_half_even_def Let_def)
qed

lemma float_of_nat_below_top:
  assumes bl: "bit_length n = 53 + sh" and sh: "0 < sh"
    and lt: "n < (2 ^ 53 - 1) * 2 ^ sh + 2 ^ (sh - 1)"
  shows "float_of_nat n \<le> (2 ^ 53 - 1) * 2 ^ sh"
proof -
  let ?q = "n div 2 ^ sh"
  have fl: "float_of_nat n = round_half_even n sh * 2 ^ sh"
    by (simp add: float_of_nat_def bl)
  have "0 < n" using bl by (cases "n = 0") (simp_all add: bit_length.simps [of 0])
  from bit_length_bounds [OF this] have "n < 2 ^ (53 + sh)" by (simp add: bl)
  then have "n < 2 ^ 53 * 2 ^ sh" by (simp add: power_add)
  then have q: "?q < 2 ^ 53" by (simp add: less_mult_imp_div_less)
  have "round_half_even n sh \<le> 2 ^ 53 - 1"
  proof (cases "round_half_even n sh = ?q + 1")
    case True
    from round_half_even_up [OF sh True] lt
    have "?q * 2 ^ sh < (2 ^ 53 - 1) * 2 ^ sh" by linarith
    then have "?q < 2 ^ 53 - 1" by (simp only: mult_less_cancel2)
    with True show ?thesis by simp
  next
    case False
    with round_half_even_bounds [of n sh] have "round_half_even n sh = ?q" by linarith
    with q show ?thesis by simp
  qed
  then have "round_half_even n sh * 2 ^ sh \<le> (2 ^ 53 - 1) * 2 ^ sh"
    by (rule mult_le_mono1)
  with fl show ?thesis by simp
qed

lemma float_of_nat_at_top:
  assumes bl: "bit_length n = 53 + sh" and sh: "0 < sh"
    and ge: "(2 ^ 53 - 1) * 2 ^ sh + 2 ^ (sh - 1) \<le> n"
  shows "float_of_nat n = 2 ^ 53 * 2 ^ sh"
proof -
  let ?q = "n div 2 ^ sh"
  have fl: "float_of_nat n = round_half_even n sh * 2 ^ sh"
    by (simp add: float_of_nat_def bl)
  have "0 < n" using bl by (cases "n = 0") (simp_all add: bit_length.simps [of 0])
  from bit_length_bounds [OF this] have "n < 2 ^ (53 + sh)" by (simp add: bl)
  then have "n < 2 ^ 53 * 2 ^ sh" by (simp add: power_add)
  then have q: "?q < 2 ^ 53" by (simp add: less_mult_imp_div_less)
  from ge have "(2 ^ 53 - 1) * 2 ^ sh \<le> n" by linarith
  then have "2 ^ 53 - 1 \<le> ?q" by (simp add: less_eq_div_iff_mult_less_eq)
  with q have q': "?q = 2 ^ 53 - 1" by linarith
  then have odd: "odd ?q" by simp
  from ge q' have "?q * 2 ^ sh + 2 ^ (sh - 1) \<le> n" by simp
  from round_half_even_odd_up [OF sh this odd] q'
  have "round_half_even n sh = 2 ^ 53" by simp
  with fl show ?thesis by simp
qed

lemma double_range_numerals:
  "((2::nat) ^ 53 - 1) * 2 ^ 971 + 2 ^ (971 - 1) = 2 ^ 1024 - 2 ^ 970"
  "(2::nat) ^ 53 * 2 ^ 971 = 2 ^ 1024"
  "((2::nat) ^ 53 - 1) * 2 ^ 971 < 2 ^ 1024"
  by simp_all

lemma float_of_nat_lower:
  assumes "2 ^ b \<le> n" and "52 \<le> b"
  shows "2 ^ b \<le> float_of_nat n"
proof -
  define sh where "sh = bit_length n - 53"
  from bit_length_ge [OF assms(1)] have bl: "b < bit_length n" .
  with assms(2) have bl_eq: "bit_length n = 53 + sh" by (simp add: sh_def)
  from bl have pos: "0 < n" by (cases "n = 0") (simp_all add: bit_length.simps [of 0])
  from bit_length_bounds [OF pos] have "2 ^ (bit_length n - 1) \<le> n" ..
  then have "2 ^ (52 + sh) \<le> n" by (simp add: bl_eq)
  then have "2 ^ 52 * 2 ^ sh \<le> n" by (simp only: power_add)
  then have "2 ^ 52 \<le> n div 2 ^ sh"
    by (simp add: less_eq_div_iff_mult_less_eq)
  with round_half_even_bounds [of n sh] have "2 ^ 52 \<le> round_half_even n sh" by linarith
  then have "2 ^ 52 * 2 ^ sh \<le> round_half_even n sh * 2 ^ sh"
    by (rule mult_le_mono1)
  moreover have "float_of_nat n = round_half_even n sh * 2 ^ sh"
    by (simp add: float_of_nat_def Let_def sh_def)
  ultimately have "2 ^ 52 * 2 ^ sh \<le> float_of_nat n" by simp
  then have "2 ^ (52 + sh) \<le> float_of_nat n" by (simp only: power_add)
  moreover from bl bl_eq have "b \<le> 52 + sh" by simp
  then have "(2::nat) ^ b \<le> 2 ^ (52 + sh)" by (intro power_increasing) simp_all
  ultimately show ?thesis by (rule le_trans [rotated])
qed

lemma double_range_order:
  "(2::nat) ^ 1023 \<le> 2 ^ 1024 - 2 ^ 970"
  "(2::nat) ^ 1023 < 2 ^ 1024"
  "(2::nat) ^ 1024 - 2 ^ 970 \<le> 2 ^ 1024"
  by simp_all

lemma float_of_nat_in_range:
  assumes "n < 2 ^ 1024 - 2 ^ 970"
  shows "float_of_nat n < 2 ^ 1024"
proof (cases "n < 2 ^ 1023")
  case True
  have "(53::nat) \<le> 1023" by simp
  from float_of_nat_upper [OF True this] have "float_of_nat n \<le> 2 ^ 1023" .
  also note double_range_order(2)
  finally show ?thesis .
next
  case False
  then have ge: "2 ^ 1023 \<le> n" by (simp only: not_less)
  from assms double_range_order(3) have lt: "n < 2 ^ 1024" by (rule less_le_trans)
  from bit_length_ge [OF ge] bit_length_le [OF lt] have bl: "bit_length n = 53 + 971" by simp
  from assms have "n < (2 ^ 53 - 1) * 2 ^ 971 + 2 ^ (971 - 1)"
    by (simp only: double_range_numerals)
  from float_of_nat_below_top [OF bl _ this]
  have "float_of_nat n \<le> (2 ^ 53 - 1) * 2 ^ 971" by simp
  also note double_range_numerals(3)
  finally show ?thesis .
qed

lemma float_of_nat_overflow:
  assumes "2 ^ 1024 - 2 ^ 970 \<le> n"
  shows "2 ^ 1024 \<le> float_of_nat n"
proof (cases "n < 2 ^ 1024")
  case False
  then have "2 ^ 1024 \<le> n" by (simp only: not_less)
  then show ?thesis by (rule float_of_nat_lower) simp
next
  case True
  from double_range_order(1) assms have ge: "2 ^ 1023 \<le> n" by (rule le_trans)
  from bit_length_ge [OF ge] bit_length_le [OF True] have bl: "bit_length n = 53 + 971" by simp
  from assms have "(2 ^ 53 - 1) * 2 ^ 971 + 2 ^ (971 - 1) \<le> n"
    by (simp only: double_range_numerals)
  from float_of_nat_at_top [OF bl _ this]
  have "float_of_nat n = 2 ^ 53 * 2 ^ 971" by simp
  then show ?thesis by (simp only: double_range_numerals)
qed

lemma round_to_even_error:
  assumes lo: "q * q \<le> s" and hi: "s < (q + 1) * (q + 1)"
    and exact: "\<not> sticky \<Longrightarrow> q * q = s"
  shows "\<bar>2 * real (round_to_even q sticky) - sqrt (real s)\<bar> \<le> 1"
proof -
  from lo have "real (q * q) \<le> real s" by (simp only: of_nat_le_iff)
  then have "(real q)\<^sup>2 \<le> real s" by (simp add: power2_eq_square)
  then have a: "real q \<le> sqrt (real s)" by (rule real_le_rsqrt)
  from hi have "real s < real ((q + 1) * (q + 1))" by (simp only: of_nat_less_iff)
  then have "real s < (real q + 1)\<^sup>2" by (simp add: power2_eq_square algebra_simps)
  then have b: "sqrt (real s) < real q + 1" by (intro real_less_lsqrt) simp_all
  show ?thesis
  proof (cases "odd q")
    case False
    then have "2 * (q div 2) = q" by simp
    then have "real (2 * (q div 2)) = real q" by (rule arg_cong)
    then have "2 * real (round_to_even q sticky) = real q"
      using False by (simp add: round_to_even_def)
    with a b show ?thesis by simp
  next
    case True
    then have q: "2 * (q div 2) + 1 = q" by simp
    show ?thesis
    proof (cases "sticky \<or> odd (q div 2)")
      case up: True
      with True have "round_to_even q sticky = q div 2 + 1" by (simp add: round_to_even_def)
      with q have "2 * round_to_even q sticky = q + 1" by simp
      then have "real (2 * round_to_even q sticky) = real (q + 1)" by (rule arg_cong)
      then have "2 * real (round_to_even q sticky) = real q + 1" by simp
      with a b show ?thesis by simp
    next
      case down: False
      with True have "round_to_even q sticky = q div 2" by (simp add: round_to_even_def)
      with q have "2 * round_to_even q sticky + 1 = q" by simp
      then have "real (2 * round_to_even q sticky + 1) = real q" by (rule arg_cong)
      then have r: "2 * real (round_to_even q sticky) + 1 = real q" by simp
      from down exact have "q * q = s" by simp
      then have "real (q * q) = real s" by (rule arg_cong)
      then have "(real q)\<^sup>2 = real s" by (simp add: power2_eq_square)
      then have "sqrt (real s) = real q" by (rule real_sqrt_unique) simp
      with r show ?thesis by simp
    qed
  qed
qed

lemma sqrt_double_error:
  assumes "d < 2 ^ 52"
  shows "\<bar>sqrt_double d - sqrt (real d)\<bar> \<le> 1 / 2 ^ 28"
proof (cases "d = 0")
  case True
  then show ?thesis by (simp add: sqrt_double_def)
next
  case False
  define h where "h = (bit_length d + 1) div 2"
  define k where "k = 54 - h"
  from assms have "bit_length d \<le> 52" by (rule bit_length_le)
  then have h: "h \<le> 26" by (simp add: h_def)
  then have k: "28 \<le> k" "h \<le> 54" by (simp_all add: k_def)
  define s where "s = d * 4 ^ k"
  define q where "q = isqrt s"
  define m where "m = round_to_even q (q * q \<noteq> s)"
  have val: "sqrt_double d = real m * 2 / 2 ^ k"
    unfolding sqrt_double_def Let_def m_def q_def s_def k_def h_def
    using False k(2) [unfolded h_def] by (simp only: if_False if_True)
  from isqrt_bounds [of s] have "q * q \<le> s" "s < (q + 1) * (q + 1)" by (simp_all add: q_def)
  from round_to_even_error [OF this, of "q * q \<noteq> s"]
  have e: "\<bar>2 * real m - sqrt (real s)\<bar> \<le> 1" by (simp add: m_def)
  have rs: "sqrt (real s) = sqrt (real d) * 2 ^ k"
  proof -
    have "real s = real d * 4 ^ k" by (simp add: s_def)
    then have "sqrt (real s) = sqrt (real d) * sqrt (4 ^ k)" by (simp add: real_sqrt_mult)
    also have "sqrt ((4::real) ^ k) = 2 ^ k" by (simp add: real_sqrt_power)
    finally show ?thesis .
  qed
  have "sqrt_double d - sqrt (real d) = (2 * real m - sqrt (real s)) / 2 ^ k"
    by (simp add: val rs field_simps)
  then have "\<bar>sqrt_double d - sqrt (real d)\<bar> = \<bar>2 * real m - sqrt (real s)\<bar> / 2 ^ k"
    by (simp add: abs_divide)
  also have "\<dots> \<le> 1 / 2 ^ k" using e by (simp add: divide_right_mono)
  also have "\<dots> \<le> 1 / 2 ^ 28"
  proof -
    from k(1) have "(2::real) ^ 28 \<le> 2 ^ k" by (intro power_increasing) simp_all
    then show ?thesis by (simp add: frac_le)
  qed
  finally show ?thesis .
qed

lemma sqrt_gap_small:
  assumes "a < b" and "b < (2::nat) ^ 52"
  shows "1 / 2 ^ 27 < sqrt (real b) - sqrt (real a)"
proof -
  let ?u = "sqrt (real a)" and ?v = "sqrt (real b)"
  from assms(1) have uv: "?u < ?v" by simp
  have u0: "0 \<le> ?u" by simp
  from assms(2) have "real b < real (2 ^ 52)" by (simp only: of_nat_less_iff)
  then have "real b < (2 ^ 26)\<^sup>2" by simp
  then have v: "?v < 2 ^ 26" by (intro real_less_lsqrt) simp_all
  from uv v have "?v + ?u < 2 ^ 26 + 2 ^ 26" by linarith
  then have sum: "?v + ?u < 2 ^ 27" by simp
  have "(?v - ?u) * (?v + ?u) = real b - real a"
    by (simp add: algebra_simps)
  moreover from assms(1) have "1 \<le> real b - real a" by simp
  ultimately have prod: "1 \<le> (?v - ?u) * (?v + ?u)" by simp
  show ?thesis
  proof (rule ccontr)
    assume "\<not> 1 / 2 ^ 27 < ?v - ?u"
    then have le: "?v - ?u \<le> 1 / 2 ^ 27" by simp
    from uv have pos: "0 < ?v - ?u" by simp
    have "(?v - ?u) * (?v + ?u) < (?v - ?u) * 2 ^ 27"
      using sum pos by (rule mult_strict_left_mono)
    also have "\<dots> \<le> (1 / 2 ^ 27) * 2 ^ 27"
      using le by (intro mult_right_mono) simp_all
    also have "\<dots> = 1" by simp
    finally show False using prod by simp
  qed
qed

lemma sqrt_double_strict_mono:
  assumes "a < b" and "b < 2 ^ 52"
  shows "sqrt_double a < sqrt_double b"
proof -
  from assms have a: "a < 2 ^ 52" by simp
  from sqrt_double_error [OF a] have "sqrt_double a \<le> sqrt (real a) + 1 / 2 ^ 28" by linarith
  moreover from sqrt_double_error [OF assms(2)]
  have "sqrt (real b) - 1 / 2 ^ 28 \<le> sqrt_double b" by linarith
  moreover from sqrt_gap_small [OF assms] have "1 / 2 ^ 27 < sqrt (real b) - sqrt (real a)" .
  moreover have "(1::real) / 2 ^ 28 + 1 / 2 ^ 28 = 1 / 2 ^ 27" by simp
  ultimately show ?thesis by linarith
qed

lemma sqrt_double_less_iff:
  assumes "a < 2 ^ 52" and "b < 2 ^ 52"
  shows "sqrt_double a < sqrt_double b \<longleftrightarrow> a < b"
proof
  assume l: "sqrt_double a < sqrt_double b"
  show "a < b"
  proof (rule ccontr)
    assume "\<not> a < b"
    then have "b < a \<or> b = a" by linarith
    then show False
    proof
      assume "b < a"
      from sqrt_double_strict_mono [OF this assms(1)] l show False by simp
    next
      assume "b = a"
      with l show False by simp
    qed
  qed
next
  assume "a < b"
  then show "sqrt_double a < sqrt_double b" using assms(2) by (rule sqrt_double_strict_mono)
qed

lemma sqrt_double_eq_iff:
  assumes "a < 2 ^ 52" and "b < 2 ^ 52"
  shows "sqrt_double a = sqrt_double b \<longleftrightarrow> a = b"
proof
  assume e: "sqrt_double a = sqrt_double b"
  show "a = b"
  proof (rule ccontr)
    assume "a \<noteq> b"
    then have "a < b \<or> b < a" by linarith
    then show False
    proof
      assume "a < b"
      from sqrt_double_strict_mono [OF this assms(2)] e show False by simp
    next
      assume "b < a"
      from sqrt_double_strict_mono [OF this assms(1)] e show False by simp
    qed
  qed
qed simp

lemma sqrt_double_le_iff:
  assumes "a < 2 ^ 52" and "b < 2 ^ 52"
  shows "sqrt_double a \<le> sqrt_double b \<longleftrightarrow> a \<le> b"
proof -
  have "sqrt_double a \<le> sqrt_double b \<longleftrightarrow> \<not> sqrt_double b < sqrt_double a" by auto
  also have "\<dots> \<longleftrightarrow> \<not> b < a" by (simp only: sqrt_double_less_iff [OF assms(2,1)])
  also have "\<dots> \<longleftrightarrow> a \<le> b" by auto
  finally show ?thesis .
qed

subsection \<open>Python primitives\<close>

lemma py_min_fold:
  "fold (\<lambda>v m. if v < m then v else m) ds (d::real) \<in> set (d # ds) \<and>
   (\<forall>e \<in> set (d # ds). fold (\<lambda>v m. if v < m then v else m) ds d \<le> e)"
proof (induction ds arbitrary: d)
  case Nil
  show ?case by simp
next
  case (Cons c cs)
  show ?case
  proof (cases "c < d")
    case True
    with Cons [of c] show ?thesis by force
  next
    case False
    with Cons [of d] show ?thesis by force
  qed
qed

lemma py_min_Inr:
  assumes "ds \<noteq> []"
  shows "\<exists>m. py_min ds = Inr m \<and> m \<in> set ds \<and> (\<forall>e \<in> set ds. m \<le> e)"
proof -
  from assms obtain d cs where ds: "ds = d # cs" by (cases ds) auto
  show ?thesis unfolding ds using py_min_fold [of cs d] by simp
qed

lemma py_index_first:
  "v \<in> set ds \<Longrightarrow>
     \<exists>i. py_index ds v = Inr i \<and> i < length ds \<and> ds ! i = v \<and> (\<forall>j<i. ds ! j \<noteq> v)"
proof (induction ds)
  case Nil
  then show ?case by simp
next
  case (Cons d ds)
  show ?case
  proof (cases "d = v")
    case True
    then show ?thesis by simp
  next
    case False
    with Cons.prems have "v \<in> set ds" by simp
    from Cons.IH [OF this] obtain i where
      i: "py_index ds v = Inr i" "i < length ds" "ds ! i = v" "\<forall>j<i. ds ! j \<noteq> v" by blast
    have "\<forall>j<Suc i. (d # ds) ! j \<noteq> v"
      using False i(4) by (auto simp: less_Suc_eq_0_disj)
    with False i show ?thesis by simp
  qed
qed

lemma first_minimum_index:
  assumes "ds \<noteq> []"
  shows "\<exists>m i. py_min ds = Inr m \<and> py_index ds m = Inr i \<and> i < length ds \<and>
           (\<forall>j<length ds. ds ! i \<le> ds ! j) \<and> (\<forall>j<i. ds ! i < ds ! j)"
proof -
  from py_min_Inr [OF assms] obtain m where
    m: "py_min ds = Inr m" "m \<in> set ds" "\<forall>e \<in> set ds. m \<le> e" by blast
  from py_index_first [OF m(2)] obtain i where
    i: "py_index ds m = Inr i" "i < length ds" "ds ! i = m" "\<forall>j<i. ds ! j \<noteq> m" by blast
  have le: "\<forall>j<length ds. ds ! i \<le> ds ! j" using m(3) i(3) by simp
  have "\<forall>j<i. ds ! i < ds ! j"
  proof (intro allI impI)
    fix j assume "j < i"
    with i(2) have "j < length ds" by simp
    with le have "ds ! i \<le> ds ! j" by simp
    moreover from \<open>j < i\<close> i(3,4) have "ds ! j \<noteq> ds ! i" by simp
    ultimately show "ds ! i < ds ! j" by simp
  qed
  with m(1) i(1,2) le show ?thesis by blast
qed

lemma py_get_nat: "i < length xs \<Longrightarrow> py_get xs (int i) = Inr (xs ! i)"
  by (simp add: py_get_def)

lemma py_get_last: "p \<noteq> [] \<Longrightarrow> py_get p (- 1) = Inr (last p)"
proof -
  assume "p \<noteq> []"
  then have len: "Suc 0 \<le> length p" by (simp add: Suc_leI)
  then have "nat (int (length p) + - 1) = length p - 1" by linarith
  with \<open>p \<noteq> []\<close> len show ?thesis by (simp add: py_get_def last_conv_nth)
qed

lemma py_get_empty: "py_get [] i = Inl IndexError"
  by (simp add: py_get_def)

subsection \<open>Distances\<close>

lemma sqdist_nonneg: "0 \<le> sqdist g c"
  by (simp add: sqdist_def)

lemma double_range_int:
  "nat ((2::int) ^ 1024 - 2 ^ 970) = 2 ^ 1024 - 2 ^ 970"
  "(0::int) < 2 ^ 1024 - 2 ^ 970"
  "(2::int) ^ 52 \<le> 2 ^ 1024 - 2 ^ 970"
  by simp_all

lemma math_sqrt_in_range:
  assumes "0 \<le> z" and "z < 2 ^ 1024 - 2 ^ 970"
  shows "math_sqrt z = Inr (sqrt_double (float_of_nat (nat z)))"
proof -
  from assms(2) double_range_int(2) have "nat z < nat (2 ^ 1024 - 2 ^ 970)"
    by (simp only: zless_nat_conj)
  then have "nat z < 2 ^ 1024 - 2 ^ 970" by (simp only: double_range_int(1))
  then have "float_of_nat (nat z) < 2 ^ 1024" by (rule float_of_nat_in_range)
  then have "\<not> 2 ^ 1024 \<le> float_of_nat (nat z)" by (simp only: not_le)
  with assms(1) show ?thesis by (simp add: math_sqrt_def Let_def)
qed

lemma math_sqrt_overflow:
  assumes "2 ^ 1024 - 2 ^ 970 \<le> z"
  shows "math_sqrt z = Inl OverflowError"
proof -
  from double_range_int(2) assms have pos: "0 < z" by (rule less_le_trans)
  from assms have "nat (2 ^ 1024 - 2 ^ 970) \<le> nat z" by (rule nat_mono)
  then have "2 ^ 1024 - 2 ^ 970 \<le> nat z" by (simp only: double_range_int(1))
  then have "2 ^ 1024 \<le> float_of_nat (nat z)" by (rule float_of_nat_overflow)
  with pos show ?thesis by (simp add: math_sqrt_def Let_def)
qed

lemma euclid_in_range:
  "sqdist g c < 2 ^ 1024 - 2 ^ 970 \<Longrightarrow> euclid g c = Inr (double_dist g c)"
  using math_sqrt_in_range [OF sqdist_nonneg, of g c]
  by (simp add: euclid_def double_dist_def sqdist_def)

lemma euclid_overflow:
  "2 ^ 1024 - 2 ^ 970 \<le> sqdist g c \<Longrightarrow> euclid g c = Inl OverflowError"
  using math_sqrt_overflow [of "sqdist g c"]
  by (simp add: euclid_def sqdist_def)

lemma small_in_range: "z < 2 ^ 52 \<Longrightarrow> z < (2::int) ^ 1024 - 2 ^ 970"
  by (rule less_le_trans [OF _ double_range_int(3)])

lemma double_dist_small:
  assumes "sqdist g c < 2 ^ 52"
  shows "double_dist g c = sqrt_double (nat (sqdist g c))" and "nat (sqdist g c) < 2 ^ 52"
proof -
  from assms show n: "nat (sqdist g c) < 2 ^ 52" by simp
  then have "nat (sqdist g c) < 2 ^ 53" by simp
  then show "double_dist g c = sqrt_double (nat (sqdist g c))"
    by (simp add: double_dist_def float_of_nat_exact)
qed

lemma double_dist_less_iff:
  assumes "sqdist a c < 2 ^ 52" and "sqdist b d < 2 ^ 52"
  shows "double_dist a c < double_dist b d \<longleftrightarrow> sqdist a c < sqdist b d"
proof -
  note sa = double_dist_small [OF assms(1)] and sb = double_dist_small [OF assms(2)]
  have "double_dist a c < double_dist b d \<longleftrightarrow>
        sqrt_double (nat (sqdist a c)) < sqrt_double (nat (sqdist b d))"
    by (simp only: sa(1) sb(1))
  also have "\<dots> \<longleftrightarrow> nat (sqdist a c) < nat (sqdist b d)"
    by (rule sqrt_double_less_iff [OF sa(2) sb(2)])
  also have "\<dots> \<longleftrightarrow> sqdist a c < sqdist b d"
    using sqdist_nonneg [of a c] sqdist_nonneg [of b d] by linarith
  finally show ?thesis .
qed

lemma double_dist_eq_iff:
  assumes "sqdist a c < 2 ^ 52" and "sqdist b d < 2 ^ 52"
  shows "double_dist a c = double_dist b d \<longleftrightarrow> sqdist a c = sqdist b d"
proof -
  note sa = double_dist_small [OF assms(1)] and sb = double_dist_small [OF assms(2)]
  have "double_dist a c = double_dist b d \<longleftrightarrow>
        sqrt_double (nat (sqdist a c)) = sqrt_double (nat (sqdist b d))"
    by (simp only: sa(1) sb(1))
  also have "\<dots> \<longleftrightarrow> nat (sqdist a c) = nat (sqdist b d)"
    by (rule sqrt_double_eq_iff [OF sa(2) sb(2)])
  also have "\<dots> \<longleftrightarrow> sqdist a c = sqdist b d"
    using sqdist_nonneg [of a c] sqdist_nonneg [of b d] by linarith
  finally show ?thesis .
qed

lemma double_dist_le_iff:
  assumes "sqdist a c < 2 ^ 52" and "sqdist b d < 2 ^ 52"
  shows "double_dist a c \<le> double_dist b d \<longleftrightarrow> sqdist a c \<le> sqdist b d"
proof -
  note sa = double_dist_small [OF assms(1)] and sb = double_dist_small [OF assms(2)]
  have "double_dist a c \<le> double_dist b d \<longleftrightarrow>
        sqrt_double (nat (sqdist a c)) \<le> sqrt_double (nat (sqdist b d))"
    by (simp only: sa(1) sb(1))
  also have "\<dots> \<longleftrightarrow> nat (sqdist a c) \<le> nat (sqdist b d)"
    by (rule sqrt_double_le_iff [OF sa(2) sb(2)])
  also have "\<dots> \<longleftrightarrow> sqdist a c \<le> sqdist b d"
    using sqdist_nonneg [of a c] sqdist_nonneg [of b d] by linarith
  finally show ?thesis .
qed

lemma exact_dist_le_iff: "exact_dist a c \<le> exact_dist b d \<longleftrightarrow> sqdist a c \<le> sqdist b d"
  by (simp only: exact_dist_def real_sqrt_le_iff of_int_le_iff)

lemma exact_dist_less_iff: "exact_dist a c < exact_dist b d \<longleftrightarrow> sqdist a c < sqdist b d"
  by (simp only: exact_dist_def real_sqrt_less_iff of_int_less_iff)

subsection \<open>Goal selection\<close>

lemma goal_dists_in_range:
  "\<forall>g \<in> set goals. sqdist g cur < 2 ^ 1024 - 2 ^ 970 \<Longrightarrow>
     goal_dists goals cur = Inr (map (\<lambda>g. double_dist g cur) goals)"
  by (induction goals) (simp_all add: euclid_in_range)

lemma goal_dists_overflow:
  "\<exists>g \<in> set goals. 2 ^ 1024 - 2 ^ 970 \<le> sqdist g cur \<Longrightarrow>
     goal_dists goals cur = Inl OverflowError"
proof (induction goals)
  case Nil
  then show ?case by simp
next
  case (Cons g goals)
  show ?case
  proof (cases "2 ^ 1024 - 2 ^ 970 \<le> sqdist g cur")
    case True
    then show ?thesis by (simp add: euclid_overflow)
  next
    case False
    then have "sqdist g cur < 2 ^ 1024 - 2 ^ 970" by (simp only: not_le)
    then have e: "euclid g cur = Inr (double_dist g cur)" by (rule euclid_in_range)
    from False Cons.prems have "\<exists>g \<in> set goals. 2 ^ 1024 - 2 ^ 970 \<le> sqdist g cur"
      by (simp only: list.set bex_simps insert_iff) blast
    from Cons.IH [OF this] e show ?thesis by simp
  qed
qed

lemma select_closest_goal_index:
  assumes "goal_list \<noteq> []" and "\<forall>g \<in> set goal_list. sqdist g cur < 2 ^ 1024 - 2 ^ 970"
  shows "\<exists>i<length goal_list.
           select_closest_goal goal_list cur = Inr (goal_list ! i) \<and>
           (\<forall>j<length goal_list. double_dist (goal_list ! i) cur \<le> double_dist (goal_list ! j) cur) \<and>
           (\<forall>j<i. double_dist (goal_list ! i) cur < double_dist (goal_list ! j) cur)"
proof -
  let ?ds = "map (\<lambda>goal. double_dist goal cur) goal_list"
  from assms(1) have "?ds \<noteq> []" by simp
  from first_minimum_index [OF this] obtain m i where
    mi: "py_min ?ds = Inr m" "py_index ?ds m = Inr i" "i < length ?ds"
        "\<forall>j<length ?ds. ?ds ! i \<le> ?ds ! j" "\<forall>j<i. ?ds ! i < ?ds ! j" by blast
  from mi(3) have i: "i < length goal_list" by simp
  have "select_closest_goal goal_list cur = Inr (goal_list ! i)"
    using mi(1,2) i goal_dists_in_range [OF assms(2)]
    by (simp add: select_closest_goal_def py_get_nat)
  moreover have "\<forall>j<length goal_list. double_dist (goal_list ! i) cur \<le> double_dist (goal_list ! j) cur"
    using mi(4) i by simp
  moreover have "\<forall>j<i. double_dist (goal_list ! i) cur < double_dist (goal_list ! j) cur"
    using mi(5) i by simp
  ultimately show ?thesis using i by blast
qed

lemma select_closest_goal_exact:
  assumes "goal_list \<noteq> []" and small: "\<forall>g \<in> set goal_list. sqdist g cur < 2 ^ 52"
  shows "\<exists>i<length goal_list.
           select_closest_goal goal_list cur = Inr (goal_list ! i) \<and>
           (\<forall>j<length goal_list. exact_dist (goal_list ! i) cur \<le> exact_dist (goal_list ! j) cur) \<and>
           (\<forall>j<i. exact_dist (goal_list ! i) cur < exact_dist (goal_list ! j) cur)"
proof -
  from small have "\<forall>g \<in> set goal_list. sqdist g cur < 2 ^ 1024 - 2 ^ 970"
    using small_in_range by blast
  from select_closest_goal_index [OF assms(1) this] obtain i where
    i: "i < length goal_list" "select_closest_goal goal_list cur = Inr (goal_list ! i)"
       "\<forall>j<length goal_list. double_dist (goal_list ! i) cur \<le> double_dist (goal_list ! j) cur"
       "\<forall>j<i. double_dist (goal_list ! i) cur < double_dist (goal_list ! j) cur"
    by blast
  have s: "sqdist (goal_list ! j) cur < 2 ^ 52" if "j < length goal_list" for j
    using small that by simp
  have "\<forall>j<length goal_list. exact_dist (goal_list ! i) cur \<le> exact_dist (goal_list ! j) cur"
  proof (intro allI impI)
    fix j assume j: "j < length goal_list"
    with i(3) have "double_dist (goal_list ! i) cur \<le> double_dist (goal_list ! j) cur" by simp
    then show "exact_dist (goal_list ! i) cur \<le> exact_dist (goal_list ! j) cur"
      by (simp only: double_dist_le_iff [OF s [OF i(1)] s [OF j]] exact_dist_le_iff)
  qed
  moreover have "\<forall>j<i. exact_dist (goal_list ! i) cur < exact_dist (goal_list ! j) cur"
  proof (intro allI impI)
    fix j assume ji: "j < i"
    with i(1) have j: "j < length goal_list" by simp
    from ji i(4) have "double_dist (goal_list ! i) cur < double_dist (goal_list ! j) cur" by simp
    then show "exact_dist (goal_list ! i) cur < exact_dist (goal_list ! j) cur"
      by (simp only: double_dist_less_iff [OF s [OF i(1)] s [OF j]] exact_dist_less_iff)
  qed
  ultimately show ?thesis using i(1,2) by blast
qed

lemma euclid_small: "sqdist g c < 2 ^ 52 \<Longrightarrow> euclid g c = Inr (double_dist g c)"
  by (rule euclid_in_range [OF small_in_range])

lemmas dist_eval =
  euclid_small double_dist_less_iff double_dist_eq_iff double_dist_le_iff sqdist_def

lemma bit_length_eq: "2 ^ k \<le> n \<Longrightarrow> n < 2 ^ Suc k \<Longrightarrow> bit_length n = Suc k"
  using bit_length_ge [of k n] bit_length_le [of n "Suc k"] by simp

lemma float_of_nat_tie: "float_of_nat 10000000000000001 = float_of_nat 10000000000000000"
proof -
  have a: "bit_length 10000000000000001 = Suc 53" by (rule bit_length_eq) simp_all
  have b: "bit_length 10000000000000000 = Suc 53" by (rule bit_length_eq) simp_all
  show ?thesis by (simp add: float_of_nat_def a b round_half_even_def)
qed

lemma double_dist_tie:
  "double_dist (100000000, 1) (0, 0) = double_dist (100000000, 0) (0, 0)"
  by (simp add: double_dist_def sqdist_def float_of_nat_tie)

lemma tie_in_range:
  "sqdist (100000000, 1) (0, 0) < 2 ^ 1024 - 2 ^ 970"
  "sqdist (100000000, 0) (0, 0) < 2 ^ 1024 - 2 ^ 970"
  by (simp_all add: sqdist_def)

lemma far_goal_overflow: "2 ^ 1024 - 2 ^ 970 \<le> sqdist (10 ^ 200, 0) (0, 0)"
  by (simp add: sqdist_def)

text \<open>
  Claim C6, as amended. On a non-empty list of candidates, each at a squared distance
  below \<open>2 ^ 1024 - 2 ^ 970\<close> from the current position (where \<open>math.sqrt\<close> does not
  overflow), \<open>select_closest_goal\<close> returns the first candidate whose distance, as
  computed in double precision, is minimal: no candidate has a smaller computed distance,
  and every earlier candidate has a strictly larger one. While all squared distances are
  below \<open>2 ^ 52\<close> the computed distances order as the exact ones, and the result is the
  first candidate at minimum Euclidean distance. The two calls of the specification return
  \<open>[0, 0]\<close> and \<open>[0, 1]\<close>.
\<close>

theorem select_closest_goal_nearest_first:
  "(goal_list \<noteq> [] \<longrightarrow> (\<forall>g \<in> set goal_list. sqdist g cur < 2 ^ 1024 - 2 ^ 970) \<longrightarrow>
      (\<exists>i<length goal_list.
         select_closest_goal goal_list cur = Inr (goal_list ! i) \<and>
         (\<forall>j<length goal_list.
            double_dist (goal_list ! i) cur \<le> double_dist (goal_list ! j) cur) \<and>
         (\<forall>j<i. double_dist (goal_list ! i) cur < double_dist (goal_list ! j) cur))) \<and>
   (goal_list \<noteq> [] \<longrightarrow> (\<forall>g \<in> set goal_list. sqdist g cur < 2 ^ 52) \<longrightarrow>
      (\<exists>i<length goal_list.
         select_closest_goal goal_list cur = Inr (goal_list ! i) \<and>
         (\<forall>j<length goal_list.
            exact_dist (goal_list ! i) cur \<le> exact_dist (goal_list ! j) cur) \<and>
         (\<forall>j<i. exact_dist (goal_list ! i) cur < exact_dist (goal_list ! j) cur))) \<and>
   select_closest_goal [(0, 0), (10, 10)] (1, 0) = Inr (0, 0) \<and>
   select_closest_goal [(0, 1), (1, 0)] (0, 0) = Inr (0, 1)"
proof (intro conjI impI)
  assume "goal_list \<noteq> []" and "\<forall>g \<in> set goal_list. sqdist g cur < 2 ^ 1024 - 2 ^ 970"
  then show "\<exists>i<length goal_list.
         select_closest_goal goal_list cur = Inr (goal_list ! i) \<and>
         (\<forall>j<length goal_list.
            double_dist (goal_list ! i) cur \<le> double_dist (goal_list ! j) cur) \<and>
         (\<forall>j<i. double_dist (goal_list ! i) cur < double_dist (goal_list ! j) cur)"
    by (rule select_closest_goal_index)
next
  assume "goal_list \<noteq> []" and "\<forall>g \<in> set goal_list. sqdist g cur < 2 ^ 52"
  then show "\<exists>i<length goal_list.
         select_closest_goal goal_list cur = Inr (goal_list ! i) \<and>
         (\<forall>j<length goal_list.
            exact_dist (goal_list ! i) cur \<le> exact_dist (goal_list ! j) cur) \<and>
         (\<forall>j<i. exact_dist (goal_list ! i) cur < exact_dist (goal_list ! j) cur)"
    by (rule select_closest_goal_exact)
next
  show "select_closest_goal [(0, 0), (10, 10)] (1, 0) = Inr (0, 0)"
    by (simp add: select_closest_goal_def dist_eval py_get_def)
next
  show "select_closest_goal [(0, 1), (1, 0)] (0, 0) = Inr (0, 1)"
    by (simp add: select_closest_goal_def dist_eval py_get_def)
qed

theorem select_closest_goal_nearest_first_witness:
  "[(0, 1), (1, 0)] \<noteq> ([] :: (int \<times> int) list) \<and>
   list_all (\<lambda>g. sqdist g (0, 0) < 2 ^ 52) [(0, 1), (1, 0)] \<and>
   (\<exists>i<length [(0, 1), (1, 0) :: int \<times> int].
      select_closest_goal [(0, 1), (1, 0)] (0, 0) = Inr ([(0, 1), (1, 0)] ! i) \<and>
      (\<forall>j<length [(0, 1), (1, 0) :: int \<times> int].
         exact_dist ([(0, 1), (1, 0)] ! i) (0, 0) \<le> exact_dist ([(0, 1), (1, 0)] ! j) (0, 0)) \<and>
      (\<forall>j<i. exact_dist ([(0, 1), (1, 0)] ! i) (0, 0) < exact_dist ([(0, 1), (1, 0)] ! j) (0, 0))) \<and>
   (\<exists>i<length [(0, 1), (1, 0) :: int \<times> int].
      select_closest_goal [(0, 1), (1, 0)] (0, 0) = Inr ([(0, 1), (1, 0)] ! i) \<and>
      (\<forall>j<length [(0, 1), (1, 0) :: int \<times> int].
         double_dist ([(0, 1), (1, 0)] ! i) (0, 0) \<le> double_dist ([(0, 1), (1, 0)] ! j) (0, 0)) \<and>
      (\<forall>j<i. double_dist ([(0, 1), (1, 0)] ! i) (0, 0) < double_dist ([(0, 1), (1, 0)] ! j) (0, 0))) \<and>
   select_closest_goal [(0, 1), (1, 0)] (0, 0) = Inr (0, 1)"
proof -
  have h: "[(0, 1), (1, 0)] \<noteq> ([] :: (int \<times> int) list)" by simp
  have s: "\<forall>g \<in> set [(0, 1), (1, 0)]. sqdist g (0, 0) < 2 ^ 52" by (simp add: sqdist_def)
  then have r: "\<forall>g \<in> set [(0, 1), (1, 0)]. sqdist g (0, 0) < 2 ^ 1024 - 2 ^ 970"
    using small_in_range by blast
  from s have l: "list_all (\<lambda>g. sqdist g (0, 0) < 2 ^ 52) [(0, 1), (1, 0)]"
    by (simp only: list_all_iff)
  from select_closest_goal_nearest_first [of "[(0, 1), (1, 0)]" "(0, 0)"] h s r l
  show ?thesis by blast
qed

text \<open>
  Claim C6 as stated fails here. Both squared distances, \<open>10 ^ 16 + 1\<close> and \<open>10 ^ 16\<close>, have
  the same nearest double, so the computed distances tie and the first candidate is
  returned, though the second one is nearer.
\<close>

theorem select_closest_goal_rounding_counterexample:
  "select_closest_goal [(100000000, 1), (100000000, 0)] (0, 0) = Inr (100000000, 1) \<and>
   exact_dist (100000000, 0) (0, 0) < exact_dist (100000000, 1) (0, 0)"
proof
  have "goal_dists [(100000000, 1), (100000000, 0)] (0, 0) =
      Inr [double_dist (100000000, 0) (0, 0), double_dist (100000000, 0) (0, 0)]"
    by (simp add: euclid_in_range [OF tie_in_range(1)] euclid_in_range [OF tie_in_range(2)]
        double_dist_tie)
  then show "select_closest_goal [(100000000, 1), (100000000, 0)] (0, 0) = Inr (100000000, 1)"
    by (simp add: select_closest_goal_def py_get_def)
  show "exact_dist (100000000, 0) (0, 0) < exact_dist (100000000, 1) (0, 0)"
    by (simp add: exact_dist_less_iff sqdist_def)
qed

text \<open>
  Claim C10, as amended. On the empty list \<open>select_closest_goal\<close> raises \<open>ValueError\<close>
  (the minimum of an empty sequence). On a non-empty list whose candidates are all at a
  squared distance below \<open>2 ^ 1024 - 2 ^ 970\<close> from the current position it returns an
  element of the list. With a candidate at that squared distance or beyond, it raises
  \<open>OverflowError\<close>.
\<close>

theorem select_closest_goal_empty_raises:
  "select_closest_goal [] cur = Inl ValueError \<and>
   (goal_list \<noteq> [] \<longrightarrow> (\<forall>g \<in> set goal_list. sqdist g cur < 2 ^ 1024 - 2 ^ 970) \<longrightarrow>
      (\<exists>g \<in> set goal_list. select_closest_goal goal_list cur = Inr g)) \<and>
   ((\<exists>g \<in> set goal_list. 2 ^ 1024 - 2 ^ 970 \<le> sqdist g cur) \<longrightarrow>
      select_closest_goal goal_list cur = Inl OverflowError)"
proof (intro conjI impI)
  show "select_closest_goal [] cur = Inl ValueError"
    by (simp add: select_closest_goal_def)
next
  assume "goal_list \<noteq> []" and "\<forall>g \<in> set goal_list. sqdist g cur < 2 ^ 1024 - 2 ^ 970"
  from select_closest_goal_index [OF this] obtain i where
    "i < length goal_list" "select_closest_goal goal_list cur = Inr (goal_list ! i)" by blast
  then show "\<exists>g \<in> set goal_list. select_closest_goal goal_list cur = Inr g"
    using nth_mem by blast
next
  assume "\<exists>g \<in> set goal_list. 2 ^ 1024 - 2 ^ 970 \<le> sqdist g cur"
  then have "goal_dists goal_list cur = Inl OverflowError" by (rule goal_dists_overflow)
  then show "select_closest_goal goal_list cur = Inl OverflowError"
    by (simp add: select_closest_goal_def)
qed

theorem select_closest_goal_empty_raises_witness:
  "[(4, 4), (1, 2)] \<noteq> ([] :: (int \<times> int) list) \<and>
   list_all (\<lambda>g. sqdist g (0, 0) < 2 ^ 1024 - 2 ^ 970) [(4, 4), (1, 2)] \<and>
   select_closest_goal [] (0, 0) = Inl ValueError \<and>
   (\<exists>g \<in> set [(4, 4), (1, 2)]. select_closest_goal [(4, 4), (1, 2)] (0, 0) = Inr g) \<and>
   (\<exists>g \<in> set [(1, 2), (10 ^ 200, 0)]. 2 ^ 1024 - 2 ^ 970 \<le> sqdist g (0, 0)) \<and>
   select_closest_goal [(1, 2), (10 ^ 200, 0)] (0, 0) = Inl OverflowError"
proof -
  have h: "[(4, 4), (1, 2)] \<noteq> ([] :: (int \<times> int) list)" by simp
  have "\<forall>g \<in> set [(4, 4), (1, 2)]. sqdist g (0, 0) < 2 ^ 52" by (simp add: sqdist_def)
  then have r: "\<forall>g \<in> set [(4, 4), (1, 2)]. sqdist g (0, 0) < 2 ^ 1024 - 2 ^ 970"
    using small_in_range by blast
  then have l: "list_all (\<lambda>g. sqdist g (0, 0) < 2 ^ 1024 - 2 ^ 970) [(4, 4), (1, 2)]"
    by (simp only: list_all_iff)
  have o: "\<exists>g \<in> set [(1, 2), (10 ^ 200, 0)]. 2 ^ 1024 - 2 ^ 970 \<le> sqdist g (0, 0)"
    using far_goal_overflow by simp
  from select_closest_goal_empty_raises [of "(0, 0)" "[(4, 4), (1, 2)]"] h r
  have 1: "select_closest_goal [] (0, 0) = Inl ValueError"
    and 2: "\<exists>g \<in> set [(4, 4), (1, 2)]. select_closest_goal [(4, 4), (1, 2)] (0, 0) = Inr g"
    by blast+
  from select_closest_goal_empty_raises [of "(0, 0)" "[(1, 2), (10 ^ 200, 0)]"] o
  have 3: "select_closest_goal [(1, 2), (10 ^ 200, 0)] (0, 0) = Inl OverflowError" by blast
  from h l 1 2 o 3 show ?thesis by blast
qed

text \<open>
  Claim C10 as stated fails here: the list is not empty, and the call raises
  \<open>OverflowError\<close>, since the squared distance \<open>10 ^ 400\<close> is beyond the double range.
\<close>

theorem select_closest_goal_overflow_counterexample:
  "[(10 ^ 200, 0)] \<noteq> ([] :: (int \<times> int) list) \<and>
   select_closest_goal [(10 ^ 200, 0)] (0, 0) = Inl OverflowError"
  using euclid_overflow [OF far_goal_overflow] by (simp add: select_closest_goal_def)

subsection \<open>The open-node choice\<close>

lemma node_dists_in_range:
  "\<forall>p \<in> set paths. p \<noteq> [] \<and> sqdist goal (to_tuple (last p)) < 2 ^ 1024 - 2 ^ 970 \<Longrightarrow>
     node_dists paths goal = Inr (map (\<lambda>p. double_dist goal (to_tuple (last p))) paths)"
  by (induction paths) (simp_all add: py_get_last euclid_in_range)

lemma node_dists_overflow:
  "\<forall>p \<in> set paths. p \<noteq> [] \<Longrightarrow>
   \<exists>p \<in> set paths. 2 ^ 1024 - 2 ^ 970 \<le> sqdist goal (to_tuple (last p)) \<Longrightarrow>
     node_dists paths goal = Inl OverflowError"
proof (induction paths)
  case Nil
  then show ?case by simp
next
  case (Cons p paths)
  from Cons.prems(1) have p: "py_get p (- 1) = Inr (last p)" by (simp add: py_get_last)
  show ?case
  proof (cases "2 ^ 1024 - 2 ^ 970 \<le> sqdist goal (to_tuple (last p))")
    case True
    then show ?thesis by (simp add: p euclid_overflow)
  next
    case False
    then have "sqdist goal (to_tuple (last p)) < 2 ^ 1024 - 2 ^ 970" by (simp only: not_le)
    then have e: "euclid goal (to_tuple (last p)) = Inr (double_dist goal (to_tuple (last p)))"
      by (rule euclid_in_range)
    from False Cons.prems(2)
    have "\<exists>p \<in> set paths. 2 ^ 1024 - 2 ^ 970 \<le> sqdist goal (to_tuple (last p))"
      by (simp only: list.set bex_simps insert_iff) blast
    moreover from Cons.prems(1) have "\<forall>p \<in> set paths. p \<noteq> []" by simp
    ultimately have "node_dists paths goal = Inl OverflowError" by (rule Cons.IH [rotated])
    with p e show ?thesis by simp
  qed
qed

lemma select_open_node_index:
  assumes "paths \<noteq> []"
    and "\<forall>p \<in> set paths. p \<noteq> [] \<and> sqdist goal (to_tuple (last p)) < 2 ^ 1024 - 2 ^ 970"
  shows "\<exists>i<length paths.
           select_open_node paths goal = Inr (paths ! i, take i paths @ drop (Suc i) paths) \<and>
           (\<forall>j<length paths. double_dist goal (to_tuple (last (paths ! i)))
                               \<le> double_dist goal (to_tuple (last (paths ! j)))) \<and>
           (\<forall>j<i. double_dist goal (to_tuple (last (paths ! i)))
                    < double_dist goal (to_tuple (last (paths ! j))))"
proof -
  let ?ds = "map (\<lambda>p. double_dist goal (to_tuple (last p))) paths"
  from assms(1) have "?ds \<noteq> []" by simp
  from first_minimum_index [OF this] obtain m i where
    mi: "py_min ?ds = Inr m" "py_index ?ds m = Inr i" "i < length ?ds"
        "\<forall>j<length ?ds. ?ds ! i \<le> ?ds ! j" "\<forall>j<i. ?ds ! i < ?ds ! j" by blast
  from mi(3) have i: "i < length paths" by simp
  have "select_open_node paths goal = Inr (paths ! i, take i paths @ drop (Suc i) paths)"
    using mi(1,2) node_dists_in_range [OF assms(2)]
    by (simp add: select_open_node_def py_pop_def)
  moreover have "\<forall>j<length paths. double_dist goal (to_tuple (last (paths ! i)))
                               \<le> double_dist goal (to_tuple (last (paths ! j)))"
    using mi(4) i by simp
  moreover have "\<forall>j<i. double_dist goal (to_tuple (last (paths ! i)))
                    < double_dist goal (to_tuple (last (paths ! j)))"
    using mi(5) i by simp
  ultimately show ?thesis using i by blast
qed

lemma select_open_node_exact:
  assumes "paths \<noteq> []"
    and small: "\<forall>p \<in> set paths. p \<noteq> [] \<and> sqdist goal (to_tuple (last p)) < 2 ^ 52"
  shows "\<exists>i<length paths.
           select_open_node paths goal = Inr (paths ! i, take i paths @ drop (Suc i) paths) \<and>
           (\<forall>j<length paths. exact_dist goal (to_tuple (last (paths ! i)))
                               \<le> exact_dist goal (to_tuple (last (paths ! j)))) \<and>
           (\<forall>j<i. exact_dist goal (to_tuple (last (paths ! i)))
                    < exact_dist goal (to_tuple (last (paths ! j))))"
proof -
  from small
  have "\<forall>p \<in> set paths. p \<noteq> [] \<and> sqdist goal (to_tuple (last p)) < 2 ^ 1024 - 2 ^ 970"
    using small_in_range by blast
  from select_open_node_index [OF assms(1) this] obtain i where
    i: "i < length paths"
       "select_open_node paths goal = Inr (paths ! i, take i paths @ drop (Suc i) paths)"
       "\<forall>j<length paths. double_dist goal (to_tuple (last (paths ! i)))
                               \<le> double_dist goal (to_tuple (last (paths ! j)))"
       "\<forall>j<i. double_dist goal (to_tuple (last (paths ! i)))
                    < double_dist goal (to_tuple (last (paths ! j)))"
    by blast
  have s: "sqdist goal (to_tuple (last (paths ! j))) < 2 ^ 52" if "j < length paths" for j
    using small that by simp
  have "\<forall>j<length paths. exact_dist goal (to_tuple (last (paths ! i)))
                               \<le> exact_dist goal (to_tuple (last (paths ! j)))"
  proof (intro allI impI)
    fix j assume j: "j < length paths"
    with i(3) have "double_dist goal (to_tuple (last (paths ! i)))
                      \<le> double_dist goal (to_tuple (last (paths ! j)))" by simp
    then show "exact_dist goal (to_tuple (last (paths ! i)))
                 \<le> exact_dist goal (to_tuple (last (paths ! j)))"
      by (simp only: double_dist_le_iff [OF s [OF i(1)] s [OF j]] exact_dist_le_iff)
  qed
  moreover have "\<forall>j<i. exact_dist goal (to_tuple (last (paths ! i)))
                    < exact_dist goal (to_tuple (last (paths ! j)))"
  proof (intro allI impI)
    fix j assume ji: "j < i"
    with i(1) have j: "j < length paths" by simp
    from ji i(4) have "double_dist goal (to_tuple (last (paths ! i)))
                         < double_dist goal (to_tuple (last (paths ! j)))" by simp
    then show "exact_dist goal (to_tuple (last (paths ! i)))
                 < exact_dist goal (to_tuple (last (paths ! j)))"
      by (simp only: double_dist_less_iff [OF s [OF i(1)] s [OF j]] exact_dist_less_iff)
  qed
  ultimately show ?thesis using i(1,2) by blast
qed

text \<open>On a worklist of non-empty paths the choice either overflows or pops an index.\<close>

lemma select_open_node_cases:
  assumes "paths \<noteq> []" and ne: "\<forall>p \<in> set paths. p \<noteq> []"
  shows "select_open_node paths goal = Inl OverflowError \<and>
           (\<exists>p \<in> set paths. 2 ^ 1024 - 2 ^ 970 \<le> sqdist goal (to_tuple (last p))) \<or>
         (\<exists>i<length paths.
            select_open_node paths goal = Inr (paths ! i, take i paths @ drop (Suc i) paths))"
proof (cases "\<exists>p \<in> set paths. 2 ^ 1024 - 2 ^ 970 \<le> sqdist goal (to_tuple (last p))")
  case True
  from node_dists_overflow [OF ne True] have "select_open_node paths goal = Inl OverflowError"
    by (simp add: select_open_node_def)
  with True show ?thesis by blast
next
  case False
  then have "\<forall>p \<in> set paths. sqdist goal (to_tuple (last p)) < 2 ^ 1024 - 2 ^ 970"
    by (simp only: bex_simps not_le)
  with ne
  have "\<forall>p \<in> set paths. p \<noteq> [] \<and> sqdist goal (to_tuple (last p)) < 2 ^ 1024 - 2 ^ 970"
    by blast
  from select_open_node_index [OF assms(1) this] show ?thesis by blast
qed

text \<open>
  Claim C5, as amended. On a worklist of non-empty paths, each ending at a squared
  distance below \<open>2 ^ 1024 - 2 ^ 970\<close> from the goal, \<open>select_open_node\<close> removes the path
  at the lowest index among those whose last state has the minimal distance to the goal,
  as computed in double precision: no path of the worklist ends at a smaller computed
  distance, and every path before it ends at a strictly larger one. While all squared
  distances are below \<open>2 ^ 52\<close> this is the lowest index among the paths ending at
  minimum Euclidean distance. The rest of the worklist keeps its order. (The worklist is
  not popped from its end.)
\<close>

theorem select_open_node_first_minimum:
  "(paths \<noteq> [] \<longrightarrow>
    (\<forall>p \<in> set paths. p \<noteq> [] \<and> sqdist goal (to_tuple (last p)) < 2 ^ 1024 - 2 ^ 970) \<longrightarrow>
      (\<exists>i<length paths.
         select_open_node paths goal = Inr (paths ! i, take i paths @ drop (Suc i) paths) \<and>
         (\<forall>j<length paths. double_dist goal (to_tuple (last (paths ! i)))
                             \<le> double_dist goal (to_tuple (last (paths ! j)))) \<and>
         (\<forall>j<i. double_dist goal (to_tuple (last (paths ! i)))
                  < double_dist goal (to_tuple (last (paths ! j)))))) \<and>
   (paths \<noteq> [] \<longrightarrow>
    (\<forall>p \<in> set paths. p \<noteq> [] \<and> sqdist goal (to_tuple (last p)) < 2 ^ 52) \<longrightarrow>
      (\<exists>i<length paths.
         select_open_node paths goal = Inr (paths ! i, take i paths @ drop (Suc i) paths) \<and>
         (\<forall>j<length paths. exact_dist goal (to_tuple (last (paths ! i)))
                             \<le> exact_dist goal (to_tuple (last (paths ! j)))) \<and>
         (\<forall>j<i. exact_dist goal (to_tuple (last (paths ! i)))
                  < exact_dist goal (to_tuple (last (paths ! j))))))"
proof (intro conjI impI)
  assume "paths \<noteq> []"
    and "\<forall>p \<in> set paths. p \<noteq> [] \<and> sqdist goal (to_tuple (last p)) < 2 ^ 1024 - 2 ^ 970"
  then show "\<exists>i<length paths.
         select_open_node paths goal = Inr (paths ! i, take i paths @ drop (Suc i) paths) \<and>
         (\<forall>j<length paths. double_dist goal (to_tuple (last (paths ! i)))
                             \<le> double_dist goal (to_tuple (last (paths ! j)))) \<and>
         (\<forall>j<i. double_dist goal (to_tuple (last (paths ! i)))
                  < double_dist goal (to_tuple (last (paths ! j))))"
    by (rule select_open_node_index)
next
  assume "paths \<noteq> []"
    and "\<forall>p \<in> set paths. p \<noteq> [] \<and> sqdist goal (to_tuple (last p)) < 2 ^ 52"
  then show "\<exists>i<length paths.
         select_open_node paths goal = Inr (paths ! i, take i paths @ drop (Suc i) paths) \<and>
         (\<forall>j<length paths. exact_dist goal (to_tuple (last (paths ! i)))
                             \<le> exact_dist goal (to_tuple (last (paths ! j)))) \<and>
         (\<forall>j<i. exact_dist goal (to_tuple (last (paths ! i)))
                  < exact_dist goal (to_tuple (last (paths ! j))))"
    by (rule select_open_node_exact)
qed

theorem select_open_node_first_minimum_witness:
  "[[\<lparr>x = 1, y = 0\<rparr>], [\<lparr>x = 0, y = 1\<rparr>]] \<noteq> [] \<and>
   list_all (\<lambda>p. p \<noteq> [] \<and> sqdist (0, 0) (to_tuple (last p)) < 2 ^ 52)
     [[\<lparr>x = 1, y = 0\<rparr>], [\<lparr>x = 0, y = 1\<rparr>]] \<and>
   list_all (\<lambda>p. p \<noteq> [] \<and> sqdist (0, 0) (to_tuple (last p)) < 2 ^ 1024 - 2 ^ 970)
     [[\<lparr>x = 1, y = 0\<rparr>], [\<lparr>x = 0, y = 1\<rparr>]] \<and>
   (\<exists>i<length [[\<lparr>x = 1, y = 0\<rparr>], [\<lparr>x = 0, y = 1\<rparr>]].
      select_open_node [[\<lparr>x = 1, y = 0\<rparr>], [\<lparr>x = 0, y = 1\<rparr>]] (0, 0) =
        Inr ([[\<lparr>x = 1, y = 0\<rparr>], [\<lparr>x = 0, y = 1\<rparr>]] ! i,
             take i [[\<lparr>x = 1, y = 0\<rparr>], [\<lparr>x = 0, y = 1\<rparr>]] @
             drop (Suc i) [[\<lparr>x = 1, y = 0\<rparr>], [\<lparr>x = 0, y = 1\<rparr>]]) \<and>
      (\<forall>j<i. exact_dist (0, 0) (to_tuple (last ([[\<lparr>x = 1, y = 0\<rparr>], [\<lparr>x = 0, y = 1\<rparr>]] ! i)))
               < exact_dist (0, 0) (to_tuple (last ([[\<lparr>x = 1, y = 0\<rparr>], [\<lparr>x = 0, y = 1\<rparr>]] ! j))))) \<and>
   (\<exists>i<length [[\<lparr>x = 1, y = 0\<rparr>], [\<lparr>x = 0, y = 1\<rparr>]].
      select_open_node [[\<lparr>x = 1, y = 0\<rparr>], [\<lparr>x = 0, y = 1\<rparr>]] (0, 0) =
        Inr ([[\<lparr>x = 1, y = 0\<rparr>], [\<lparr>x = 0, y = 1\<rparr>]] ! i,
             take i [[\<lparr>x = 1, y = 0\<rparr>], [\<lparr>x = 0, y = 1\<rparr>]] @
             drop (Suc i) [[\<lparr>x = 1, y = 0\<rparr>], [\<lparr>x = 0, y = 1\<rparr>]]) \<and>
      (\<forall>j<i. double_dist (0, 0) (to_tuple (last ([[\<lparr>x = 1, y = 0\<rparr>], [\<lparr>x = 0, y = 1\<rparr>]] ! i)))
               < double_dist (0, 0) (to_tuple (last ([[\<lparr>x = 1, y = 0\<rparr>], [\<lparr>x = 0, y = 1\<rparr>]] ! j)))))"
proof -
  let ?ps = "[[\<lparr>x = 1, y = 0\<rparr>], [\<lparr>x = 0, y = 1\<rparr>]]"
  have h: "?ps \<noteq> []" by simp
  have s: "\<forall>p \<in> set ?ps. p \<noteq> [] \<and> sqdist (0, 0) (to_tuple (last p)) < 2 ^ 52"
    by (simp add: sqdist_def to_tuple_def)
  then have r: "\<forall>p \<in> set ?ps. p \<noteq> [] \<and> sqdist (0, 0) (to_tuple (last p)) < 2 ^ 1024 - 2 ^ 970"
    using small_in_range by blast
  from s have ls: "list_all (\<lambda>p. p \<noteq> [] \<and> sqdist (0, 0) (to_tuple (last p)) < 2 ^ 52) ?ps"
    by (simp only: list_all_iff)
  from r have lr: "list_all (\<lambda>p. p \<noteq> [] \<and> sqdist (0, 0) (to_tuple (last p)) < 2 ^ 1024 - 2 ^ 970) ?ps"
    by (simp only: list_all_iff)
  from select_open_node_first_minimum [of ?ps "(0, 0)"] h s r
  have 1: "\<exists>i<length ?ps.
         select_open_node ?ps (0, 0) = Inr (?ps ! i, take i ?ps @ drop (Suc i) ?ps) \<and>
         (\<forall>j<length ?ps. double_dist (0, 0) (to_tuple (last (?ps ! i)))
                             \<le> double_dist (0, 0) (to_tuple (last (?ps ! j)))) \<and>
         (\<forall>j<i. double_dist (0, 0) (to_tuple (last (?ps ! i)))
                  < double_dist (0, 0) (to_tuple (last (?ps ! j))))"
    and 2: "\<exists>i<length ?ps.
         select_open_node ?ps (0, 0) = Inr (?ps ! i, take i ?ps @ drop (Suc i) ?ps) \<and>
         (\<forall>j<length ?ps. exact_dist (0, 0) (to_tuple (last (?ps ! i)))
                             \<le> exact_dist (0, 0) (to_tuple (last (?ps ! j)))) \<and>
         (\<forall>j<i. exact_dist (0, 0) (to_tuple (last (?ps ! i)))
                  < exact_dist (0, 0) (to_tuple (last (?ps ! j))))"
    by blast+
  from 1 have d1: "\<exists>i<length ?ps.
         select_open_node ?ps (0, 0) = Inr (?ps ! i, take i ?ps @ drop (Suc i) ?ps) \<and>
         (\<forall>j<i. double_dist (0, 0) (to_tuple (last (?ps ! i)))
                  < double_dist (0, 0) (to_tuple (last (?ps ! j))))" by blast
  from 2 have e2: "\<exists>i<length ?ps.
         select_open_node ?ps (0, 0) = Inr (?ps ! i, take i ?ps @ drop (Suc i) ?ps) \<and>
         (\<forall>j<i. exact_dist (0, 0) (to_tuple (last (?ps ! i)))
                  < exact_dist (0, 0) (to_tuple (last (?ps ! j))))" by blast
  from h ls lr e2 d1 show ?thesis by (intro conjI)
qed

text \<open>
  Claim C5 as stated fails here, twice. Two paths end at the same distance from the goal:
  the first one is removed, not the one at the end of the worklist. And two paths end at
  squared distances \<open>10 ^ 16 + 1\<close> and \<open>10 ^ 16\<close>, which have the same nearest double: the
  computed distances tie, and the first path is removed though the second ends nearer.
\<close>

theorem select_open_node_tie_counterexample:
  "exact_dist (0, 0) (to_tuple \<lparr>x = 1, y = 0\<rparr>) = exact_dist (0, 0) (to_tuple \<lparr>x = 0, y = 1\<rparr>) \<and>
   select_open_node [[\<lparr>x = 1, y = 0\<rparr>], [\<lparr>x = 0, y = 1\<rparr>]] (0, 0) =
     Inr ([\<lparr>x = 1, y = 0\<rparr>], [[\<lparr>x = 0, y = 1\<rparr>]]) \<and>
   select_open_node [[\<lparr>x = 1, y = 0\<rparr>], [\<lparr>x = 0, y = 1\<rparr>]] (0, 0) \<noteq>
     Inr (last [[\<lparr>x = 1, y = 0\<rparr>], [\<lparr>x = 0, y = 1\<rparr>]],
          butlast [[\<lparr>x = 1, y = 0\<rparr>], [\<lparr>x = 0, y = 1\<rparr>]]) \<and>
   select_open_node [[\<lparr>x = 100000000, y = 1\<rparr>], [\<lparr>x = 100000000, y = 0\<rparr>]] (0, 0) =
     Inr ([\<lparr>x = 100000000, y = 1\<rparr>], [[\<lparr>x = 100000000, y = 0\<rparr>]]) \<and>
   exact_dist (0, 0) (to_tuple \<lparr>x = 100000000, y = 0\<rparr>)
     < exact_dist (0, 0) (to_tuple \<lparr>x = 100000000, y = 1\<rparr>)"
proof (intro conjI)
  show "exact_dist (0, 0) (to_tuple \<lparr>x = 1, y = 0\<rparr>) = exact_dist (0, 0) (to_tuple \<lparr>x = 0, y = 1\<rparr>)"
    by (simp add: exact_dist_def sqdist_def to_tuple_def)
  show a: "select_open_node [[\<lparr>x = 1, y = 0\<rparr>], [\<lparr>x = 0, y = 1\<rparr>]] (0, 0) =
     Inr ([\<lparr>x = 1, y = 0\<rparr>], [[\<lparr>x = 0, y = 1\<rparr>]])"
    by (simp add: select_open_node_def py_get_def py_pop_def to_tuple_def dist_eval)
  show "select_open_node [[\<lparr>x = 1, y = 0\<rparr>], [\<lparr>x = 0, y = 1\<rparr>]] (0, 0) \<noteq>
     Inr (last [[\<lparr>x = 1, y = 0\<rparr>], [\<lparr>x = 0, y = 1\<rparr>]],
          butlast [[\<lparr>x = 1, y = 0\<rparr>], [\<lparr>x = 0, y = 1\<rparr>]])"
    by (simp add: a)
  have r: "sqdist (0, 0) (100000000, 1) < 2 ^ 1024 - 2 ^ 970"
    "sqdist (0, 0) (100000000, 0) < 2 ^ 1024 - 2 ^ 970"
    by (simp_all add: sqdist_def)
  have t: "double_dist (0, 0) (100000000, 1) = double_dist (0, 0) (100000000, 0)"
    by (simp add: double_dist_def sqdist_def float_of_nat_tie)
  have "node_dists [[\<lparr>x = 100000000, y = 1\<rparr>], [\<lparr>x = 100000000, y = 0\<rparr>]] (0, 0) =
      Inr [double_dist (0, 0) (100000000, 0), double_dist (0, 0) (100000000, 0)]"
    by (simp add: py_get_def to_tuple_def euclid_in_range [OF r(1)] euclid_in_range [OF r(2)] t)
  then show "select_open_node [[\<lparr>x = 100000000, y = 1\<rparr>], [\<lparr>x = 100000000, y = 0\<rparr>]] (0, 0) =
     Inr ([\<lparr>x = 100000000, y = 1\<rparr>], [[\<lparr>x = 100000000, y = 0\<rparr>]])"
    by (simp add: select_open_node_def py_pop_def)
  show "exact_dist (0, 0) (to_tuple \<lparr>x = 100000000, y = 0\<rparr>)
     < exact_dist (0, 0) (to_tuple \<lparr>x = 100000000, y = 1\<rparr>)"
    by (simp add: exact_dist_less_iff sqdist_def to_tuple_def)
qed

subsection \<open>The executor\<close>

lemma set_all_moves: "set all_moves = UNIV"
proof -
  have "mv \<in> set all_moves" for mv by (cases mv) (simp_all add: all_moves_def)
  then show ?thesis by blast
qed

lemma move_between_maps:
  assumes "get_next_state_from_move cur mv = to_tuple nxt"
  shows "get_next_state_from_move cur (move_between cur nxt) = to_tuple nxt"
proof (cases "find (\<lambda>move. get_next_state_from_move cur move = to_tuple nxt) all_moves")
  case None
  then have "\<not> (\<exists>m \<in> set all_moves. get_next_state_from_move cur m = to_tuple nxt)"
    by (simp add: find_None_iff)
  with assms show ?thesis by (simp add: set_all_moves)
next
  case (Some m)
  then have "get_next_state_from_move cur m = to_tuple nxt"
    by (auto simp: find_Some_iff)
  with Some show ?thesis by (simp add: move_between_def)
qed

lemma will_next_state_collide_iff:
  "will_next_state_collide s sd \<longleftrightarrow> (x s, y s) \<in> set (DRIVE_LOCATIONS sd)"
proof
  assume "will_next_state_collide s sd"
  then obtain r where r: "r \<in> set (DRIVE_LOCATIONS sd)" "fst r = x s" "snd r = y s"
    by (auto simp: will_next_state_collide_def list_ex_iff)
  from r(2,3) have "r = (x s, y s)" by (simp add: prod_eq_iff)
  with r(1) show "(x s, y s) \<in> set (DRIVE_LOCATIONS sd)" by simp
next
  assume "(x s, y s) \<in> set (DRIVE_LOCATIONS sd)"
  then have "\<exists>r \<in> set (DRIVE_LOCATIONS sd). fst r = x s \<and> snd r = y s"
    by (intro bexI [of _ "(x s, y s)"]) simp_all
  then show "will_next_state_collide s sd"
    by (simp add: will_next_state_collide_def list_ex_iff)
qed

lemma get_move_step:
  assumes "path_move_index a = int i" and "Suc i < length (path a)"
  shows "get_move_for_next_state_in_path a =
           (Inr (move_between (path a ! i) (path a ! Suc i), path a ! Suc i),
            a\<lparr>path_move_index := int (Suc i)\<rparr>)"
proof -
  from assms have 1: "py_get (path a) (path_move_index a) = Inr (path a ! i)"
    by (simp add: py_get_nat)
  from assms have 2: "py_get (path a) (int i + 1) = Inr (path a ! Suc i)"
    using py_get_nat [of "Suc i" "path a"] by (simp add: add.commute)
  show ?thesis
    using 1 2 assms(1)
    by (simp add: get_move_for_next_state_in_path_def move_between_def add.commute
             split: option.split)
qed

lemma get_move_exhausted:
  assumes "path_move_index a = int i" and "Suc i = length (path a)"
  shows "get_move_for_next_state_in_path a =
           (Inl IndexError, a\<lparr>path_move_index := int (length (path a))\<rparr>)"
proof -
  from assms have 1: "py_get (path a) (path_move_index a) = Inr (path a ! i)"
    by (simp add: py_get_nat)
  from assms have 2: "py_get (path a) (int i + 1) = Inl IndexError"
    by (simp add: py_get_def)
  from assms(2) have 3: "int (length (path a)) = int i + 1" by simp
  show ?thesis
    using 1 2 assms(1) 3
    by (simp add: get_move_for_next_state_in_path_def)
qed

lemma get_move_keeps_path:
  "get_move_for_next_state_in_path a = (r, a') \<Longrightarrow> path a' = path a"
  by (auto simp: get_move_for_next_state_in_path_def Let_def split: sum.splits option.splits)

lemma get_next_move_planned:
  assumes "path a \<noteq> []"
  shows "get_next_move a sd =
           (case get_move_for_next_state_in_path a of
              (Inl e, a2) \<Rightarrow> Some (Inl e, a2)
            | (Inr (next_move, next_state), a2) \<Rightarrow>
                if will_next_state_collide next_state sd
                then Some (Inr NONE, a2\<lparr>path_move_index := path_move_index a2 - 1\<rparr>)
                else Some (Inr next_move, a2))"
  using assms by (simp add: get_next_move_def)

lemma get_next_move_blocked:
  assumes "path_move_index a = int i" and "Suc i < length (path a)"
    and "(x (path a ! Suc i), y (path a ! Suc i)) \<in> set (DRIVE_LOCATIONS sd)"
  shows "get_next_move a sd = Some (Inr NONE, a)"
proof -
  from assms(2) have ne: "path a \<noteq> []" by auto
  have "a\<lparr>path_move_index := int i\<rparr> = a" using assms(1) by simp
  then show ?thesis
    using assms(3)
    by (simp add: get_next_move_planned [OF ne] get_move_step [OF assms(1,2)]
                  will_next_state_collide_iff)
qed

lemma get_next_move_free:
  assumes "path_move_index a = int i" and "Suc i < length (path a)"
    and "(x (path a ! Suc i), y (path a ! Suc i)) \<notin> set (DRIVE_LOCATIONS sd)"
  shows "get_next_move a sd =
           Some (Inr (move_between (path a ! i) (path a ! Suc i)),
                 a\<lparr>path_move_index := int (Suc i)\<rparr>)"
proof -
  from assms(2) have ne: "path a \<noteq> []" by auto
  show ?thesis
    using assms(3)
    by (simp add: get_next_move_planned [OF ne] get_move_step [OF assms(1,2)]
                  will_next_state_collide_iff)
qed

text \<open>
  Claim C4. The agent holds a plan with a next step: the cursor is at position \<open>i\<close> and
  \<open>i + 1\<close> is a position of the plan. If the next planned state is one of the drive
  positions of the snapshot, \<open>get_next_move\<close> returns \<open>NONE\<close> and the agent, cursor included,
  is as before the call, so that a later call on a snapshot without the obstacle returns
  the intended move. Without such a drive, it returns the move and advances the cursor.
  The move returned leads from the current planned state to the next whenever some move
  does.
\<close>

theorem collision_guard:
  assumes "path_move_index a = int i" and "Suc i < length (path a)"
    and "cur = path a ! i" and "nxt = path a ! Suc i"
  shows "((x nxt, y nxt) \<in> set (DRIVE_LOCATIONS sd) \<longrightarrow>
            get_next_move a sd = Some (Inr NONE, a) \<and>
            (\<forall>sd'. (x nxt, y nxt) \<notin> set (DRIVE_LOCATIONS sd') \<longrightarrow>
               (\<exists>m. get_next_move a sd' = Some (Inr m, a\<lparr>path_move_index := int (Suc i)\<rparr>) \<and>
                    (\<forall>mv. get_next_state_from_move cur mv = to_tuple nxt \<longrightarrow>
                          get_next_state_from_move cur m = to_tuple nxt)))) \<and>
         ((x nxt, y nxt) \<notin> set (DRIVE_LOCATIONS sd) \<longrightarrow>
            (\<exists>m. get_next_move a sd = Some (Inr m, a\<lparr>path_move_index := int (Suc i)\<rparr>) \<and>
                 (\<forall>mv. get_next_state_from_move cur mv = to_tuple nxt \<longrightarrow>
                       get_next_state_from_move cur m = to_tuple nxt)))"
proof -
  have free: "\<exists>m. get_next_move a s = Some (Inr m, a\<lparr>path_move_index := int (Suc i)\<rparr>) \<and>
                 (\<forall>mv. get_next_state_from_move cur mv = to_tuple nxt \<longrightarrow>
                       get_next_state_from_move cur m = to_tuple nxt)"
    if "(x nxt, y nxt) \<notin> set (DRIVE_LOCATIONS s)" for s
  proof -
    from that assms(4) have "(x (path a ! Suc i), y (path a ! Suc i)) \<notin> set (DRIVE_LOCATIONS s)"
      by simp
    from get_next_move_free [OF assms(1,2) this]
    have "get_next_move a s = Some (Inr (move_between cur nxt), a\<lparr>path_move_index := int (Suc i)\<rparr>)"
      using assms(3,4) by simp
    then show ?thesis using move_between_maps by blast
  qed
  have blocked: "get_next_move a sd = Some (Inr NONE, a)"
    if "(x nxt, y nxt) \<in> set (DRIVE_LOCATIONS sd)"
    using that assms(4) get_next_move_blocked [OF assms(1,2)] by simp
  show ?thesis using free blocked by blast
qed

lemmas eval_defs =
  get_next_move_def init_def agent_with_def snapshot_def select_closest_goal_def
  dfs_solve_path_to_goal_def get_move_for_next_state_in_path_def will_next_state_collide_def
  dfs_loop.simps select_open_node_def py_get_def py_pop_def to_tuple_def
  euclid_small double_dist_le_iff double_dist_less_iff double_dist_eq_iff sqdist_def
  list_all_next_possible_states_def all_moves_def is_state_in_bounds_def

theorem collision_guard_witness:
  "path_move_index (agent_with [\<lparr>x = 2, y = 2\<rparr>, \<lparr>x = 2, y = 3\<rparr>] 0) = int 0 \<and>
   Suc 0 < length (path (agent_with [\<lparr>x = 2, y = 2\<rparr>, \<lparr>x = 2, y = 3\<rparr>] 0)) \<and>
   (2, 3) \<in> set (DRIVE_LOCATIONS (snapshot [] [(2, 3)] (2, 2) [(2, 9)])) \<and>
   (2, 3) \<notin> set (DRIVE_LOCATIONS (snapshot [] [] (2, 2) [(2, 9)])) \<and>
   get_next_move (agent_with [\<lparr>x = 2, y = 2\<rparr>, \<lparr>x = 2, y = 3\<rparr>] 0)
       (snapshot [] [(2, 3)] (2, 2) [(2, 9)]) =
     Some (Inr NONE, agent_with [\<lparr>x = 2, y = 2\<rparr>, \<lparr>x = 2, y = 3\<rparr>] 0) \<and>
   get_next_move (agent_with [\<lparr>x = 2, y = 2\<rparr>, \<lparr>x = 2, y = 3\<rparr>] 0)
       (snapshot [] [] (2, 2) [(2, 9)]) =
     Some (Inr UP, agent_with [\<lparr>x = 2, y = 2\<rparr>, \<lparr>x = 2, y = 3\<rparr>] 1)"
proof -
  let ?a = "agent_with [\<lparr>x = 2, y = 2\<rparr>, \<lparr>x = 2, y = 3\<rparr>] 0"
  let ?cur = "\<lparr>x = 2, y = 2\<rparr>" and ?nxt = "\<lparr>x = 2, y = 3\<rparr>"
  let ?sd = "snapshot [] [(2, 3)] (2, 2) [(2, 9)]" and ?sd' = "snapshot [] [] (2, 2) [(2, 9)]"
  have h1: "path_move_index ?a = int 0" by (simp add: agent_with_def init_def)
  have h2: "Suc 0 < length (path ?a)" by (simp add: agent_with_def init_def)
  have h3: "?cur = path ?a ! 0" by (simp add: agent_with_def init_def)
  have h4: "?nxt = path ?a ! Suc 0" by (simp add: agent_with_def init_def)
  have in1: "(x ?nxt, y ?nxt) \<in> set (DRIVE_LOCATIONS ?sd)" by (simp add: snapshot_def)
  have out1: "(x ?nxt, y ?nxt) \<notin> set (DRIVE_LOCATIONS ?sd')" by (simp add: snapshot_def)
  note g = collision_guard [OF h1 h2 h3 h4, of ?sd]
  from g in1 have blocked: "get_next_move ?a ?sd = Some (Inr NONE, ?a)" by blast
  from g in1 out1 obtain m where
    m: "get_next_move ?a ?sd' = Some (Inr m, ?a\<lparr>path_move_index := int (Suc 0)\<rparr>)"
       "\<forall>mv. get_next_state_from_move ?cur mv = to_tuple ?nxt \<longrightarrow>
             get_next_state_from_move ?cur m = to_tuple ?nxt"
    by blast
  have "get_next_state_from_move ?cur UP = to_tuple ?nxt" by (simp add: to_tuple_def)
  with m(2) have "get_next_state_from_move ?cur m = to_tuple ?nxt" by blast
  then have "m = UP" by (cases m) (simp_all add: to_tuple_def)
  with m(1) have free: "get_next_move ?a ?sd' =
      Some (Inr UP, agent_with [\<lparr>x = 2, y = 2\<rparr>, \<lparr>x = 2, y = 3\<rparr>] 1)"
    by (simp add: agent_with_def)
  from h1 h2 in1 out1 blocked free show ?thesis by simp
qed

text \<open>
  Claim C2 at a concrete snapshot. The player is walled in, so the worklist empties and
  planning fails, leaving the plan empty and the agent as it was; the same call of
  \<open>get_next_move\<close> then reads position 0 of the empty path and ends in \<open>IndexError\<close>
  instead of returning \<open>NONE\<close>.
\<close>

theorem failed_planning_raises_index_error:
  "dfs_solve_path_to_goal (init 0 False)
       (snapshot [(1, 0), (- 1, 0), (0, 1), (0, - 1)] [] (0, 0) [(5, 5)]) (5, 5) =
     Some (None, init 0 False) \<and>
   get_next_move (init 0 False)
       (snapshot [(1, 0), (- 1, 0), (0, 1), (0, - 1)] [] (0, 0) [(5, 5)]) =
     Some (Inl IndexError, init 0 False)"
  by (simp add: eval_defs)

text \<open>
  Claim C3, as amended. Goal selection and planning happen only on an empty path, and
  nothing clears a stored path. While a plan is stored (the path is not empty) a call of
  \<open>get_next_move\<close> ends, with a move or with an exception, leaving the stored path as it
  was, and its outcome depends on the snapshot through the drive locations only: the
  goals, the player location and the field boundaries, which planning would read, are not
  looked at.
\<close>

theorem stored_plan_not_replanned:
  assumes "path a \<noteq> []"
  shows "(\<exists>r a'. get_next_move a sd = Some (r, a') \<and> path a' = path a) \<and>
         (\<forall>sd' :: sensor_data. DRIVE_LOCATIONS sd' = DRIVE_LOCATIONS sd \<longrightarrow>
                get_next_move a sd' = get_next_move a sd)"
proof
  obtain r a2 where g: "get_move_for_next_state_in_path a = (r, a2)"
    by (cases "get_move_for_next_state_in_path a")
  from get_move_keeps_path [OF g] have p: "path a2 = path a" .
  show "\<exists>r a'. get_next_move a sd = Some (r, a') \<and> path a' = path a"
    using g p by (auto simp: get_next_move_planned [OF assms] split: sum.splits)
next
  show "\<forall>sd' :: sensor_data. DRIVE_LOCATIONS sd' = DRIVE_LOCATIONS sd \<longrightarrow>
          get_next_move a sd' = get_next_move a sd"
  proof (intro allI impI)
    fix sd' :: sensor_data assume "DRIVE_LOCATIONS sd' = DRIVE_LOCATIONS sd"
    then have "will_next_state_collide s sd' = will_next_state_collide s sd" for s
      by (simp add: will_next_state_collide_def)
    then show "get_next_move a sd' = get_next_move a sd"
      by (simp add: get_next_move_planned [OF assms] split: prod.split sum.split)
  qed
qed

theorem stored_plan_not_replanned_witness:
  "path (agent_with [\<lparr>x = 0, y = 0\<rparr>, \<lparr>x = 1, y = 0\<rparr>] 0) \<noteq> [] \<and>
   DRIVE_LOCATIONS (snapshot [(1, 0)] [] (7, 7) [(3, 0)]) =
     DRIVE_LOCATIONS (snapshot [] [] (0, 0) [(1, 0)]) \<and>
   get_next_move (agent_with [\<lparr>x = 0, y = 0\<rparr>, \<lparr>x = 1, y = 0\<rparr>] 0)
       (snapshot [(1, 0)] [] (7, 7) [(3, 0)]) =
     get_next_move (agent_with [\<lparr>x = 0, y = 0\<rparr>, \<lparr>x = 1, y = 0\<rparr>] 0)
       (snapshot [] [] (0, 0) [(1, 0)]) \<and>
   (\<exists>r a'. get_next_move (agent_with [\<lparr>x = 0, y = 0\<rparr>, \<lparr>x = 1, y = 0\<rparr>] 0)
              (snapshot [] [] (0, 0) [(1, 0)]) = Some (r, a') \<and>
           path a' = path (agent_with [\<lparr>x = 0, y = 0\<rparr>, \<lparr>x = 1, y = 0\<rparr>] 0))"
proof -
  let ?a = "agent_with [\<lparr>x = 0, y = 0\<rparr>, \<lparr>x = 1, y = 0\<rparr>] 0"
  have h1: "path ?a \<noteq> []" by (simp add: agent_with_def init_def)
  have h2: "DRIVE_LOCATIONS (snapshot [(1, 0)] [] (7, 7) [(3, 0)]) =
     DRIVE_LOCATIONS (snapshot [] [] (0, 0) [(1, 0)])" by (simp add: snapshot_def)
  note s = stored_plan_not_replanned [OF h1, of "snapshot [] [] (0, 0) [(1, 0)]"]
  from s h2 have 1: "get_next_move ?a (snapshot [(1, 0)] [] (7, 7) [(3, 0)]) =
     get_next_move ?a (snapshot [] [] (0, 0) [(1, 0)])" by blast
  from s have 2: "\<exists>r a'. get_next_move ?a (snapshot [] [] (0, 0) [(1, 0)]) = Some (r, a') \<and>
           path a' = path ?a" by blast
  from h1 h2 1 2 show ?thesis by (intro conjI)
qed

text \<open>
  Claim C3 as stated fails on this run of two ticks. The first tick plans and emits
  \<open>RIGHT\<close>, which leaves the cursor at the end of the plan; the second tick does not
  plan: it ends in \<open>IndexError\<close>, where an agent without a plan, on the same snapshot,
  plans towards the new goal and emits \<open>RIGHT\<close>.
\<close>

theorem exhausted_plan_counterexample:
  "get_next_move (init 0 False) (snapshot [] [] (0, 0) [(1, 0)]) =
     Some (Inr RIGHT, agent_with [\<lparr>x = 0, y = 0\<rparr>, \<lparr>x = 1, y = 0\<rparr>] 1) \<and>
   get_next_move (agent_with [\<lparr>x = 0, y = 0\<rparr>, \<lparr>x = 1, y = 0\<rparr>] 1)
       (snapshot [] [] (1, 0) [(3, 0)]) =
     Some (Inl IndexError, agent_with [\<lparr>x = 0, y = 0\<rparr>, \<lparr>x = 1, y = 0\<rparr>] 2) \<and>
   get_next_move (init 0 False) (snapshot [] [] (1, 0) [(3, 0)]) =
     Some (Inr RIGHT, agent_with [\<lparr>x = 1, y = 0\<rparr>, \<lparr>x = 2, y = 0\<rparr>, \<lparr>x = 3, y = 0\<rparr>] 1)"
  by (simp add: eval_defs)

subsection \<open>The planning loop: unfolding and invariants\<close>

lemma next_states_iff:
  "t \<in> set (list_all_next_possible_states s) \<longleftrightarrow>
     (\<exists>mv. get_next_state_from_move s mv = to_tuple t)"
proof
  assume "t \<in> set (list_all_next_possible_states s)"
  then consider "t = s" | "t = \<lparr>x = x s, y = y s + 1\<rparr>" | "t = \<lparr>x = x s, y = y s - 1\<rparr>"
    | "t = \<lparr>x = x s - 1, y = y s\<rparr>" | "t = \<lparr>x = x s + 1, y = y s\<rparr>"
    by (auto simp: list_all_next_possible_states_def all_moves_def)
  then show "\<exists>mv. get_next_state_from_move s mv = to_tuple t"
  proof cases
    case 1 then have "get_next_state_from_move s NONE = to_tuple t" by (simp add: to_tuple_def)
    then show ?thesis ..
  next
    case 2 then have "get_next_state_from_move s UP = to_tuple t" by (simp add: to_tuple_def)
    then show ?thesis ..
  next
    case 3 then have "get_next_state_from_move s DOWN = to_tuple t" by (simp add: to_tuple_def)
    then show ?thesis ..
  next
    case 4 then have "get_next_state_from_move s LEFT = to_tuple t" by (simp add: to_tuple_def)
    then show ?thesis ..
  next
    case 5 then have "get_next_state_from_move s RIGHT = to_tuple t" by (simp add: to_tuple_def)
    then show ?thesis ..
  qed
next
  assume "\<exists>mv. get_next_state_from_move s mv = to_tuple t"
  then obtain mv where mv: "get_next_state_from_move s mv = to_tuple t" ..
  then show "t \<in> set (list_all_next_possible_states s)"
    by (cases mv) (auto simp: list_all_next_possible_states_def all_moves_def to_tuple_def)
qed

lemma dfs_loop_empty: "dfs_loop sd goal visited [] = Some NotFound"
  by (simp add: dfs_loop.simps)

lemma dfs_loop_unfold:
  assumes "select_open_node paths goal = Inr (cur, rest)" and "paths \<noteq> []"
  shows "dfs_loop sd goal visited paths =
           (if to_tuple (last cur) = goal then Some (Found cur)
            else dfs_loop sd goal (insert (last cur) visited)
                   (rest @ successor_paths sd (insert (last cur) visited) cur))"
proof -
  have "(x (last cur) = fst goal \<and> y (last cur) = snd goal) = (to_tuple (last cur) = goal)"
    by (auto simp: to_tuple_def)
  then show ?thesis
    using assms
    by (subst dfs_loop.simps) (simp add: successor_paths_def Let_def)
qed

lemma dfs_loop_raise:
  assumes "select_open_node paths goal = Inl e" and "paths \<noteq> []"
  shows "dfs_loop sd goal visited paths = Some (Raised e)"
  using assms by (subst dfs_loop.simps) simp

lemma goal_test_iff:
  "(x s = fst goal \<and> y s = snd goal) \<longleftrightarrow> to_tuple s = goal"
  by (auto simp: to_tuple_def)

lemma dfs_loop_invariant_aux:
  assumes nonempty: "\<And>vs ps. I vs ps \<Longrightarrow> \<forall>p \<in> set ps. p \<noteq> []"
    and step: "\<And>vs ps i. I vs ps \<Longrightarrow> i < length ps \<Longrightarrow>
                 select_open_node ps goal = Inr (ps ! i, take i ps @ drop (Suc i) ps) \<Longrightarrow>
                 to_tuple (last (ps ! i)) \<noteq> goal \<Longrightarrow>
                 I (insert (last (ps ! i)) vs)
                   ((take i ps @ drop (Suc i) ps) @
                      successor_paths sd (insert (last (ps ! i)) vs) (ps ! i))"
    and run: "dfs_loop sd' goal' visited paths = Some r"
  shows "sd' = sd \<Longrightarrow> goal' = goal \<Longrightarrow> I visited paths \<Longrightarrow>
         \<exists>vs ps. I vs ps \<and>
            (r = NotFound \<and> ps = [] \<or>
             (\<exists>p \<in> set ps. r = Found p \<and> to_tuple (last p) = goal) \<or>
             r = Raised OverflowError \<and>
               (\<exists>p \<in> set ps. 2 ^ 1024 - 2 ^ 970 \<le> sqdist goal (to_tuple (last p))))"
  using run
proof (induction sd' goal' visited paths r rule: dfs_loop.raw_induct [rotated, consumes 1])
  case (1 loop sd' goal' visited paths r)
  note body = "1.hyps" and inv = \<open>I visited paths\<close>
  note [simp] = \<open>sd' = sd\<close> \<open>goal' = goal\<close>
  show ?case
  proof (cases "paths = []")
    case True
    with body have "r = NotFound" by simp
    with inv True show ?thesis by blast
  next
    case False
    from select_open_node_cases [OF False nonempty [OF inv], of goal] show ?thesis
    proof (elim disjE conjE exE)
      assume raised: "select_open_node paths goal = Inl OverflowError"
        and far: "\<exists>p \<in> set paths. 2 ^ 1024 - 2 ^ 970 \<le> sqdist goal (to_tuple (last p))"
      from body False raised have "r = Raised OverflowError" by simp
      with inv far show ?thesis by blast
    next
      fix i
      assume i: "i < length paths"
         "select_open_node paths goal = Inr (paths ! i, take i paths @ drop (Suc i) paths)"
      show ?thesis
      proof (cases "to_tuple (last (paths ! i)) = goal")
        case True
        with body False i(2) have "r = Found (paths ! i)"
          by (simp add: Let_def goal_test_iff)
        moreover from i(1) have "paths ! i \<in> set paths" by simp
        ultimately show ?thesis using inv True by blast
      next
        case ng: False
        let ?vs = "insert (last (paths ! i)) visited"
        let ?ps = "(take i paths @ drop (Suc i) paths) @ successor_paths sd ?vs (paths ! i)"
        from body False i(2) ng have "loop sd goal ?vs ?ps = Some r"
          by (simp add: Let_def goal_test_iff successor_paths_def)
        moreover from step [OF inv i ng] have "I ?vs ?ps" .
        ultimately show ?thesis using "1.IH" [of sd goal ?vs ?ps r] by simp
      qed
    qed
  qed
qed

lemma dfs_loop_invariant:
  assumes "dfs_loop sd goal visited paths = Some r"
    and "I visited paths"
    and "\<And>vs ps. I vs ps \<Longrightarrow> \<forall>p \<in> set ps. p \<noteq> []"
    and "\<And>vs ps i. I vs ps \<Longrightarrow> i < length ps \<Longrightarrow>
                 select_open_node ps goal = Inr (ps ! i, take i ps @ drop (Suc i) ps) \<Longrightarrow>
                 to_tuple (last (ps ! i)) \<noteq> goal \<Longrightarrow>
                 I (insert (last (ps ! i)) vs)
                   ((take i ps @ drop (Suc i) ps) @
                      successor_paths sd (insert (last (ps ! i)) vs) (ps ! i))"
  shows "\<exists>vs ps. I vs ps \<and>
            (r = NotFound \<and> ps = [] \<or>
             (\<exists>p \<in> set ps. r = Found p \<and> to_tuple (last p) = goal) \<or>
             r = Raised OverflowError \<and>
               (\<exists>p \<in> set ps. 2 ^ 1024 - 2 ^ 970 \<le> sqdist goal (to_tuple (last p))))"
  using dfs_loop_invariant_aux [of I goal sd sd goal visited paths r] assms by blast

lemma to_tuple_state_of [simp]: "to_tuple (state_of c) = c"
  by (simp add: to_tuple_def state_of_def)

lemma state_of_to_tuple [simp]: "state_of (to_tuple s) = s"
  by (simp add: to_tuple_def state_of_def)

lemma to_tuple_eq_iff: "to_tuple s = c \<longleftrightarrow> s = state_of c"
  by auto

lemma valid_plan_single: "valid_plan sd start [start]"
  by (simp add: valid_plan_def)

lemma valid_plan_snoc:
  assumes "valid_plan sd start p" and "t \<in> set (list_all_next_possible_states (last p))"
    and "t \<noteq> last p" and "is_state_in_bounds t sd"
  shows "valid_plan sd start (p @ [t])"
proof -
  from assms(1) have ne: "p \<noteq> []" and hd: "hd p = start"
    and st: "\<And>i. Suc i < length p \<Longrightarrow>
        p ! Suc i \<in> set (list_all_next_possible_states (p ! i)) \<and>
        p ! Suc i \<noteq> p ! i \<and> is_state_in_bounds (p ! Suc i) sd"
    by (simp_all add: valid_plan_def)
  have "(p @ [t]) ! Suc i \<in> set (list_all_next_possible_states ((p @ [t]) ! i)) \<and>
        (p @ [t]) ! Suc i \<noteq> (p @ [t]) ! i \<and> is_state_in_bounds ((p @ [t]) ! Suc i) sd"
    if "Suc i < length (p @ [t])" for i
  proof (cases "Suc i < length p")
    case True
    with st [OF True] show ?thesis by (simp add: nth_append)
  next
    case False
    with that have i: "Suc i = length p" by simp
    then have i': "i = length p - 1" by simp
    from i have "(p @ [t]) ! Suc i = t" by (simp add: nth_append)
    moreover from i i' ne have "(p @ [t]) ! i = last p"
      by (simp add: nth_append last_conv_nth)
    ultimately have "(p @ [t]) ! Suc i = t" and "(p @ [t]) ! i = last p" by simp_all
    with assms(2-4) show ?thesis by simp
  qed
  with ne hd show ?thesis by (simp add: valid_plan_def)
qed

lemma successor_paths_elem:
  assumes "q \<in> set (successor_paths sd vs cur)"
  obtains t where "q = cur @ [t]" and "t \<in> set (list_all_next_possible_states (last cur))"
    and "t \<notin> vs" and "is_state_in_bounds t sd"
  using assms by (auto simp: successor_paths_def)

lemma successor_paths_intro:
  "t \<in> set (list_all_next_possible_states (last cur)) \<Longrightarrow> t \<notin> vs \<Longrightarrow>
     is_state_in_bounds t sd \<Longrightarrow> cur @ [t] \<in> set (successor_paths sd vs cur)"
  by (auto simp: successor_paths_def)

lemma set_pop:
  "i < length ps \<Longrightarrow> set ps = insert (ps ! i) (set (take i ps @ drop (Suc i) ps))"
proof -
  assume "i < length ps"
  then have "ps = take i ps @ ps ! i # drop (Suc i) ps" by (rule id_take_nth_drop)
  then have "set ps = set (take i ps @ ps ! i # drop (Suc i) ps)" by simp
  then show ?thesis by simp
qed

lemma filter_pop:
  "i < length ps \<Longrightarrow>
     length (filter Q ps) =
       length (filter Q (take i ps @ drop (Suc i) ps)) + (if Q (ps ! i) then 1 else 0)"
proof -
  assume "i < length ps"
  then have "ps = take i ps @ ps ! i # drop (Suc i) ps" by (rule id_take_nth_drop)
  then have "filter Q ps = filter Q (take i ps @ ps ! i # drop (Suc i) ps)" by simp
  then show ?thesis by simp
qed

text \<open>Soundness: what the worklist holds are valid plans.\<close>

lemma dfs_loop_valid:
  assumes "dfs_loop sd goal {} [[start]] = Some r"
  shows "r = NotFound \<or> r = Raised OverflowError \<or>
         (\<exists>p. r = Found p \<and> valid_plan sd start p \<and> to_tuple (last p) = goal)"
proof -
  let ?I = "\<lambda>(vs :: DriveState set) ps. \<forall>p \<in> set ps. valid_plan sd start p"
  have init: "?I {} [[start]]" by (simp add: valid_plan_single)
  have ne: "\<forall>p \<in> set ps. p \<noteq> []" if "?I vs ps" for vs ps
    using that by (auto simp: valid_plan_def)
  have step: "?I (insert (last (ps ! i)) vs)
                ((take i ps @ drop (Suc i) ps) @
                   successor_paths sd (insert (last (ps ! i)) vs) (ps ! i))"
    if inv: "?I vs ps" and i: "i < length ps" for vs ps i
  proof
    fix q assume "q \<in> set ((take i ps @ drop (Suc i) ps) @
                   successor_paths sd (insert (last (ps ! i)) vs) (ps ! i))"
    then consider "q \<in> set (take i ps @ drop (Suc i) ps)"
      | "q \<in> set (successor_paths sd (insert (last (ps ! i)) vs) (ps ! i))" by auto
    then show "valid_plan sd start q"
    proof cases
      case 1
      with set_pop [OF i] have "q \<in> set ps" by blast
      with inv show ?thesis by blast
    next
      case 2
      then obtain t where t: "q = ps ! i @ [t]"
        "t \<in> set (list_all_next_possible_states (last (ps ! i)))"
        "t \<notin> insert (last (ps ! i)) vs" "is_state_in_bounds t sd"
        by (rule successor_paths_elem)
      from i inv have "valid_plan sd start (ps ! i)" by simp
      from valid_plan_snoc [OF this t(2) _ t(4)] t(1,3) show ?thesis by simp
    qed
  qed
  from dfs_loop_invariant [of sd goal "{}" "[[start]]" r ?I, OF assms init ne step]
  show ?thesis by blast
qed

text \<open>Every path of the worklist ends in a reachable state.\<close>

lemma dfs_loop_reachable:
  assumes "dfs_loop sd goal {} [[start]] = Some (Found p)"
  shows "last p \<in> reachable sd start"
proof -
  let ?I = "\<lambda>(vs :: DriveState set) ps. \<forall>p \<in> set ps. p \<noteq> [] \<and> last p \<in> reachable sd start"
  have init: "?I {} [[start]]" by (simp add: reachable_start)
  have ne: "\<forall>p \<in> set ps. p \<noteq> []" if "?I vs ps" for vs ps
    using that by blast
  have step: "?I (insert (last (ps ! i)) vs)
                ((take i ps @ drop (Suc i) ps) @
                   successor_paths sd (insert (last (ps ! i)) vs) (ps ! i))"
    if inv: "?I vs ps" and i: "i < length ps" for vs ps i
  proof
    fix q assume "q \<in> set ((take i ps @ drop (Suc i) ps) @
                   successor_paths sd (insert (last (ps ! i)) vs) (ps ! i))"
    then consider "q \<in> set (take i ps @ drop (Suc i) ps)"
      | "q \<in> set (successor_paths sd (insert (last (ps ! i)) vs) (ps ! i))" by auto
    then show "q \<noteq> [] \<and> last q \<in> reachable sd start"
    proof cases
      case 1
      with set_pop [OF i] have "q \<in> set ps" by blast
      with inv show ?thesis by blast
    next
      case 2
      then obtain t where t: "q = ps ! i @ [t]"
        "t \<in> set (list_all_next_possible_states (last (ps ! i)))"
        "t \<notin> insert (last (ps ! i)) vs" "is_state_in_bounds t sd"
        by (rule successor_paths_elem)
      from i inv have "last (ps ! i) \<in> reachable sd start" by simp
      from reachable_step [OF this t(2,4)] t(1) show ?thesis by simp
    qed
  qed
  from dfs_loop_invariant [of sd goal "{}" "[[start]]" "Found p" ?I, OF assms init ne step]
  show ?thesis by blast
qed

lemma frontier_inv_step:
  assumes inv: "frontier_inv sd goal start vs ps" and i: "i < length ps"
    and ng: "to_tuple (last (ps ! i)) \<noteq> goal"
  shows "frontier_inv sd goal start (insert (last (ps ! i)) vs)
           ((take i ps @ drop (Suc i) ps) @
              successor_paths sd (insert (last (ps ! i)) vs) (ps ! i))"
proof -
  let ?c = "last (ps ! i)"
  let ?vs = "insert ?c vs"
  let ?rest = "take i ps @ drop (Suc i) ps"
  let ?new = "?rest @ successor_paths sd ?vs (ps ! i)"
  from inv have ne: "\<forall>p \<in> set ps. p \<noteq> []"
    and gv: "state_of goal \<notin> vs"
    and st: "start \<in> vs \<or> start \<in> last ` set ps"
    and cl: "\<forall>s \<in> vs. \<forall>t \<in> set (list_all_next_possible_states s).
          is_state_in_bounds t sd \<longrightarrow> t \<in> vs \<or> t \<in> last ` set ps"
    unfolding frontier_inv_def by blast+
  have mem: "p \<in> set ?rest \<or> p = ps ! i" if "p \<in> set ps" for p
    using that set_pop [OF i] by blast
  have sub: "set ?rest \<subseteq> set ps"
    using set_pop [OF i] by blast
  have lasts: "u \<in> ?vs \<or> u \<in> last ` set ?new" if "u \<in> last ` set ps" for u
  proof -
    from that obtain p where p: "p \<in> set ps" "u = last p" by blast
    from mem [OF p(1)] show ?thesis
    proof
      assume "p \<in> set ?rest"
      then have "p \<in> set ?new" by auto
      with p(2) show ?thesis by blast
    next
      assume "p = ps ! i"
      with p(2) show ?thesis by simp
    qed
  qed
  have a: "\<forall>p \<in> set ?new. p \<noteq> []"
  proof
    fix q assume "q \<in> set ?new"
    then consider "q \<in> set ?rest" | "q \<in> set (successor_paths sd ?vs (ps ! i))"
      by auto
    then show "q \<noteq> []"
    proof cases
      case 1
      with sub have "q \<in> set ps" by blast
      with ne show ?thesis by blast
    next
      case 2
      then obtain t where "q = ps ! i @ [t]" by (rule successor_paths_elem)
      then show ?thesis by simp
    qed
  qed
  from ng have "?c \<noteq> state_of goal" by (auto simp: to_tuple_eq_iff)
  with gv have b: "state_of goal \<notin> ?vs" by simp
  have c: "start \<in> ?vs \<or> start \<in> last ` set ?new"
  proof (cases "start \<in> vs")
    case True
    then show ?thesis by simp
  next
    case False
    with st have "start \<in> last ` set ps" by simp
    then show ?thesis by (rule lasts)
  qed
  have d: "\<forall>s \<in> ?vs. \<forall>t \<in> set (list_all_next_possible_states s).
          is_state_in_bounds t sd \<longrightarrow> t \<in> ?vs \<or> t \<in> last ` set ?new"
  proof (intro ballI impI)
    fix s t
    assume s: "s \<in> ?vs" and t: "t \<in> set (list_all_next_possible_states s)"
      and tb: "is_state_in_bounds t sd"
    show "t \<in> ?vs \<or> t \<in> last ` set ?new"
    proof (cases "t \<in> ?vs")
      case True
      then show ?thesis ..
    next
      case nt: False
      show ?thesis
      proof (cases "s = ?c")
        case True
        with t tb nt have "ps ! i @ [t] \<in> set (successor_paths sd ?vs (ps ! i))"
          by (simp add: successor_paths_intro)
        then have "ps ! i @ [t] \<in> set ?new" by simp
        then have "last (ps ! i @ [t]) \<in> last ` set ?new" by (rule imageI)
        then show ?thesis by simp
      next
        case False
        with s have "s \<in> vs" by simp
        with cl t tb have "t \<in> vs \<or> t \<in> last ` set ps" by blast
        with nt have "t \<in> last ` set ps" by simp
        then show ?thesis by (rule lasts)
      qed
    qed
  qed
  show ?thesis
    unfolding frontier_inv_def using a b c d by (intro conjI)
qed

lemma frontier_inv_final:
  assumes "frontier_inv sd goal start vs []"
  shows "state_of goal \<notin> reachable sd start"
proof
  assume goal: "state_of goal \<in> reachable sd start"
  from assms have start: "start \<in> vs" and ngoal: "state_of goal \<notin> vs"
    and cl: "\<forall>s \<in> vs. \<forall>t \<in> set (list_all_next_possible_states s).
          is_state_in_bounds t sd \<longrightarrow> t \<in> vs"
    unfolding frontier_inv_def by simp_all
  have "s \<in> vs" if "s \<in> reachable sd start" for s
    using that
  proof induction
    case reachable_start
    show ?case by (rule start)
  next
    case (reachable_step s t)
    with cl show ?case by blast
  qed
  with goal ngoal show False by blast
qed

text \<open>Completeness: the worklist cannot empty while the goal is reachable.\<close>

lemma dfs_loop_complete:
  assumes run: "dfs_loop sd goal {} [[start]] = Some r"
    and goal: "state_of goal \<in> reachable sd start"
  shows "r \<noteq> NotFound"
proof
  assume nf: "r = NotFound"
  have "\<exists>vs ps. frontier_inv sd goal start vs ps \<and>
            (r = NotFound \<and> ps = [] \<or>
             (\<exists>p \<in> set ps. r = Found p \<and> to_tuple (last p) = goal) \<or>
             r = Raised OverflowError \<and>
               (\<exists>p \<in> set ps. 2 ^ 1024 - 2 ^ 970 \<le> sqdist goal (to_tuple (last p))))"
  proof (rule dfs_loop_invariant [where I = "frontier_inv sd goal start"])
    show "dfs_loop sd goal {} [[start]] = Some r" by (rule run)
    show "frontier_inv sd goal start {} [[start]]" by (simp add: frontier_inv_def)
    show "\<forall>p \<in> set ps. p \<noteq> []" if "frontier_inv sd goal start vs ps" for vs ps
      using that unfolding frontier_inv_def by blast
    show "frontier_inv sd goal start (insert (last (ps ! i)) vs)
           ((take i ps @ drop (Suc i) ps) @
              successor_paths sd (insert (last (ps ! i)) vs) (ps ! i))"
      if "frontier_inv sd goal start vs ps" and "i < length ps"
        and "select_open_node ps goal = Inr (ps ! i, take i ps @ drop (Suc i) ps)"
        and "to_tuple (last (ps ! i)) \<noteq> goal" for vs ps i
      using that(1,2,4) by (rule frontier_inv_step)
  qed
  then obtain vs ps where fin: "frontier_inv sd goal start vs ps"
    and r: "r = NotFound \<and> ps = [] \<or> (\<exists>p \<in> set ps. r = Found p \<and> to_tuple (last p) = goal) \<or>
            r = Raised OverflowError \<and>
              (\<exists>p \<in> set ps. 2 ^ 1024 - 2 ^ 970 \<le> sqdist goal (to_tuple (last p)))"
    by blast
  from r nf have "ps = []" by auto
  with fin have "frontier_inv sd goal start vs []" by simp
  from frontier_inv_final [OF this] goal show False by blast
qed

text \<open>Termination on a field whose reachable part is finite.\<close>

lemma dfs_loop_terminates:
  assumes fin: "finite R"
    and closed: "\<And>s t. s \<in> R \<Longrightarrow> t \<in> set (list_all_next_possible_states s) \<Longrightarrow>
                   is_state_in_bounds t sd \<Longrightarrow> t \<in> R"
  shows "\<forall>p \<in> set paths. p \<noteq> [] \<and> last p \<in> R \<Longrightarrow>
           \<exists>r. dfs_loop sd goal visited paths = Some r"
proof (induction "(visited, paths)" arbitrary: visited paths
    rule: wf_induct_rule [OF wf_measures
      [of "[\<lambda>(vs, ps). card (R - vs), \<lambda>(vs, ps). length (filter (\<lambda>p. last p \<in> vs) ps)]"]])
  case (1 visited paths)
  note IH = "1.hyps" and inv = "1.prems"
  show ?case
  proof (cases "paths = []")
    case True
    then show ?thesis by (simp add: dfs_loop_empty)
  next
    case False
    from inv have "\<forall>p \<in> set paths. p \<noteq> []" by blast
    from select_open_node_cases [OF False this, of goal]
    consider "select_open_node paths goal = Inl OverflowError"
      | i where "i < length paths"
         "select_open_node paths goal = Inr (paths ! i, take i paths @ drop (Suc i) paths)"
      by blast
    then show ?thesis
    proof cases
      case 1
      from dfs_loop_raise [OF 1 False] show ?thesis by simp
    next
    case i: (2 i)
    let ?c = "last (paths ! i)"
    let ?vs = "insert ?c visited"
    let ?rest = "take i paths @ drop (Suc i) paths"
    let ?new = "?rest @ successor_paths sd ?vs (paths ! i)"
    note unf = dfs_loop_unfold [OF i(2) False, of sd visited]
    show ?thesis
    proof (cases "to_tuple ?c = goal")
      case True
      with unf show ?thesis by simp
    next
      case ng: False
      from i(1) inv have cR: "?c \<in> R" by simp
      have inv': "\<forall>p \<in> set ?new. p \<noteq> [] \<and> last p \<in> R"
      proof
        fix q assume "q \<in> set ?new"
        then consider "q \<in> set ?rest" | "q \<in> set (successor_paths sd ?vs (paths ! i))"
          by auto
        then show "q \<noteq> [] \<and> last q \<in> R"
        proof cases
          case 1
          with set_pop [OF i(1)] have "q \<in> set paths" by blast
          with inv show ?thesis by blast
        next
          case 2
          then obtain t where t: "q = paths ! i @ [t]"
            "t \<in> set (list_all_next_possible_states ?c)" "is_state_in_bounds t sd"
            by (auto elim: successor_paths_elem)
          from closed [OF cR t(2,3)] t(1) show ?thesis by simp
        qed
      qed
      have dec: "((?vs, ?new), (visited, paths)) \<in>
          measures [\<lambda>(vs, ps). card (R - vs), \<lambda>(vs, ps). length (filter (\<lambda>p. last p \<in> vs) ps)]"
      proof (cases "?c \<in> visited")
        case False
        with cR have "R - ?vs \<subset> R - visited" by blast
        with fin have "card (R - ?vs) < card (R - visited)"
          by (intro psubset_card_mono) simp_all
        then show ?thesis by simp
      next
        case True
        then have vs: "?vs = visited" by blast
        have "filter (\<lambda>p. last p \<in> visited) (successor_paths sd visited (paths ! i)) = []"
          by (auto simp: filter_empty_conv elim!: successor_paths_elem)
        then have "length (filter (\<lambda>p. last p \<in> visited) ?new) =
            length (filter (\<lambda>p. last p \<in> visited) ?rest)"
          by (simp add: vs)
        moreover from filter_pop [OF i(1), of "\<lambda>p. last p \<in> visited"] True
        have "length (filter (\<lambda>p. last p \<in> visited) paths) =
            length (filter (\<lambda>p. last p \<in> visited) ?rest) + 1" by simp
        ultimately show ?thesis by (simp add: vs)
      qed
      from IH [OF dec inv'] obtain r where "dfs_loop sd goal ?vs ?new = Some r" ..
      with unf ng show ?thesis by simp
    qed
    qed
  qed
qed

lemma reachable_closed:
  "s \<in> reachable sd start \<Longrightarrow> t \<in> set (list_all_next_possible_states s) \<Longrightarrow>
     is_state_in_bounds t sd \<Longrightarrow> t \<in> reachable sd start"
  by (rule reachable_step)

lemma dfs_loop_terminates_bounded:
  assumes "finite (reachable sd start)"
  shows "\<exists>r. dfs_loop sd goal {} [[start]] = Some r"
  by (rule dfs_loop_terminates [OF assms reachable_closed]) (simp_all add: reachable_start)

text \<open>No overflow while every reachable state is within the double range of the goal.\<close>

lemma dfs_loop_in_range:
  assumes run: "dfs_loop sd goal {} [[start]] = Some r"
    and range: "\<forall>s \<in> reachable sd start. sqdist goal (to_tuple s) < 2 ^ 1024 - 2 ^ 970"
  shows "r \<noteq> Raised OverflowError"
proof
  assume ov: "r = Raised OverflowError"
  let ?I = "\<lambda>(vs :: DriveState set) ps. \<forall>p \<in> set ps. p \<noteq> [] \<and> last p \<in> reachable sd start"
  have init: "?I {} [[start]]" by (simp add: reachable_start)
  have ne: "\<forall>p \<in> set ps. p \<noteq> []" if "?I vs ps" for vs ps
    using that by blast
  have step: "?I (insert (last (ps ! i)) vs)
                ((take i ps @ drop (Suc i) ps) @
                   successor_paths sd (insert (last (ps ! i)) vs) (ps ! i))"
    if inv: "?I vs ps" and i: "i < length ps" for vs ps i
  proof
    fix q assume "q \<in> set ((take i ps @ drop (Suc i) ps) @
                   successor_paths sd (insert (last (ps ! i)) vs) (ps ! i))"
    then consider "q \<in> set (take i ps @ drop (Suc i) ps)"
      | "q \<in> set (successor_paths sd (insert (last (ps ! i)) vs) (ps ! i))" by auto
    then show "q \<noteq> [] \<and> last q \<in> reachable sd start"
    proof cases
      case 1
      with set_pop [OF i] have "q \<in> set ps" by blast
      with inv show ?thesis by blast
    next
      case 2
      then obtain t where t: "q = ps ! i @ [t]"
        "t \<in> set (list_all_next_possible_states (last (ps ! i)))"
        "t \<notin> insert (last (ps ! i)) vs" "is_state_in_bounds t sd"
        by (rule successor_paths_elem)
      from i inv have "last (ps ! i) \<in> reachable sd start" by simp
      from reachable_step [OF this t(2,4)] t(1) show ?thesis by simp
    qed
  qed
  from dfs_loop_invariant [of sd goal "{}" "[[start]]" r ?I, OF run init ne step] ov
  obtain p where "last p \<in> reachable sd start"
    "2 ^ 1024 - 2 ^ 970 \<le> sqdist goal (to_tuple (last p))" by blast
  with range show False by fastforce
qed

subsection \<open>A field on which the worklist never empties\<close>

lemma next_states_cases:
  assumes "t \<in> set (list_all_next_possible_states s)"
  shows "x t = x s \<and> y t = y s \<or> x t = x s \<and> y t = y s + 1 \<or> x t = x s \<and> y t = y s - 1 \<or>
         x t = x s - 1 \<and> y t = y s \<or> x t = x s + 1 \<and> y t = y s"
  using assms by (auto simp: list_all_next_possible_states_def all_moves_def)

lemma next_states_right: "\<lparr>x = x s + 1, y = y s\<rparr> \<in> set (list_all_next_possible_states s)"
  by (simp add: list_all_next_possible_states_def all_moves_def)

lemma next_states_up: "\<lparr>x = x s, y = y s + 1\<rparr> \<in> set (list_all_next_possible_states s)"
  by (simp add: list_all_next_possible_states_def all_moves_def)

lemma open_field_bounds:
  "is_state_in_bounds t open_field \<longleftrightarrow>
     (x t, y t) \<notin> {(1, 0), (- 1, 0), (0, 1), (0, - 1)}"
  by (simp add: is_state_in_bounds_def open_field_def snapshot_def)

lemma far_step:
  assumes "far s" and "t \<in> set (list_all_next_possible_states s)"
    and "is_state_in_bounds t open_field"
  shows "far t"
proof -
  from next_states_cases [OF assms(2)] assms(1) have "1 \<le> \<bar>x t\<bar> + \<bar>y t\<bar>"
    unfolding far_def by linarith
  moreover from assms(3) have "\<bar>x t\<bar> + \<bar>y t\<bar> \<noteq> 1"
    unfolding open_field_bounds by auto
  ultimately show ?thesis unfolding far_def by linarith
qed

lemma far_right_in_bounds:
  assumes "2 \<le> x s"
  shows "is_state_in_bounds \<lparr>x = x s + 1, y = y s\<rparr> open_field"
  using assms unfolding open_field_bounds by simp

lemma escape_inv_step:
  assumes inv: "escape_inv vs ps" and i: "i < length ps"
  shows "escape_inv (insert (last (ps ! i)) vs)
           ((take i ps @ drop (Suc i) ps) @
              successor_paths open_field (insert (last (ps ! i)) vs) (ps ! i))"
proof -
  let ?c = "last (ps ! i)"
  let ?vs = "insert ?c vs"
  let ?rest = "take i ps @ drop (Suc i) ps"
  let ?succ = "successor_paths open_field ?vs (ps ! i)"
  let ?new = "?rest @ ?succ"
  from inv have all: "\<forall>p \<in> set ps. p \<noteq> [] \<and> far (last p)"
    unfolding escape_inv_def by blast
  from inv obtain pm where pm: "pm \<in> set ps" "\<forall>v \<in> vs. x v \<le> x (last pm)"
    "\<forall>q \<in> set ps. x (last q) \<le> x (last pm)" "2 \<le> x (last pm)"
    unfolding escape_inv_def by blast
  from i have ci: "ps ! i \<in> set ps" by simp
  with all have cfar: "far ?c" by blast
  from ci pm(3) have cle: "x ?c \<le> x (last pm)" by blast
  have sub: "set ?rest \<subseteq> set ps" using set_pop [OF i] by blast
  have mem: "p \<in> set ?rest \<or> p = ps ! i" if "p \<in> set ps" for p
    using that set_pop [OF i] by blast
  have new_cases: "q \<in> set ps \<or> q \<in> set ?succ" if "q \<in> set ?new" for q
    using that sub by auto
  have succ_x: "x (last q) \<le> x ?c + 1" and succ_far: "q \<noteq> [] \<and> far (last q)"
    if "q \<in> set ?succ" for q
  proof -
    from that obtain t where t: "q = ps ! i @ [t]"
      "t \<in> set (list_all_next_possible_states ?c)" "is_state_in_bounds t open_field"
      by (auto elim: successor_paths_elem)
    from next_states_cases [OF t(2)] t(1) show "x (last q) \<le> x ?c + 1" by auto
    from far_step [OF cfar t(2,3)] t(1) show "q \<noteq> [] \<and> far (last q)" by simp
  qed
  have a: "\<forall>p \<in> set ?new. p \<noteq> [] \<and> far (last p)"
  proof
    fix q assume "q \<in> set ?new"
    from new_cases [OF this] show "q \<noteq> [] \<and> far (last q)"
      using all succ_far by blast
  qed
  have b: "\<exists>p \<in> set ?new. 2 \<le> x (last p) \<and> (\<forall>v \<in> ?vs. x v \<le> x (last p)) \<and>
              (\<forall>q \<in> set ?new. x (last q) \<le> x (last p))"
  proof (cases "x ?c < x (last pm)")
    case True
    then have "pm \<noteq> ps ! i" by auto
    with mem [OF pm(1)] have "pm \<in> set ?rest" by blast
    then have 1: "pm \<in> set ?new" by auto
    have 2: "\<forall>v \<in> ?vs. x v \<le> x (last pm)" using pm(2) cle by auto
    have 3: "\<forall>q \<in> set ?new. x (last q) \<le> x (last pm)"
    proof
      fix q assume "q \<in> set ?new"
      from new_cases [OF this] show "x (last q) \<le> x (last pm)"
      proof
        assume "q \<in> set ps"
        with pm(3) show ?thesis by blast
      next
        assume "q \<in> set ?succ"
        from succ_x [OF this] True show ?thesis by linarith
      qed
    qed
    from 1 2 3 pm(4) show ?thesis by blast
  next
    case False
    with cle have eq: "x ?c = x (last pm)" by linarith
    let ?r = "\<lparr>x = x ?c + 1, y = y ?c\<rparr>"
    have vle: "\<forall>v \<in> ?vs. x v \<le> x ?c" using pm(2) eq by auto
    have "?r \<notin> ?vs"
    proof
      assume "?r \<in> ?vs"
      with vle have "x ?r \<le> x ?c" by blast
      then show False by simp
    qed
    moreover have "?r \<in> set (list_all_next_possible_states ?c)" by (rule next_states_right)
    moreover from eq pm(4) have c2: "2 \<le> x ?c" by simp
    then have "is_state_in_bounds ?r open_field" by (rule far_right_in_bounds)
    ultimately have "ps ! i @ [?r] \<in> set ?succ" by (simp add: successor_paths_intro)
    then have 1: "ps ! i @ [?r] \<in> set ?new" by simp
    have 2: "\<forall>v \<in> ?vs. x v \<le> x (last (ps ! i @ [?r]))" using vle by auto
    have 3: "\<forall>q \<in> set ?new. x (last q) \<le> x (last (ps ! i @ [?r]))"
    proof
      fix q assume "q \<in> set ?new"
      from new_cases [OF this] show "x (last q) \<le> x (last (ps ! i @ [?r]))"
      proof
        assume "q \<in> set ps"
        with pm(3) eq show ?thesis by auto
      next
        assume "q \<in> set ?succ"
        from succ_x [OF this] show ?thesis by simp
      qed
    qed
    from c2 have 4: "2 \<le> x (last (ps ! i @ [?r]))" by simp
    from 1 2 3 4 show ?thesis by blast
  qed
  from a b show ?thesis unfolding escape_inv_def by blast
qed

lemma escape_inv_init: "escape_inv {} [[state_of (2, 0)]]"
  by (simp add: escape_inv_def far_def state_of_def)

lemma open_field_never_fails:
  "dfs_loop open_field (0, 0) {} [[state_of (2, 0)]] = None \<or>
   dfs_loop open_field (0, 0) {} [[state_of (2, 0)]] = Some (Raised OverflowError)"
proof (cases "dfs_loop open_field (0, 0) {} [[state_of (2, 0)]]")
  case None
  then show ?thesis by simp
next
  case (Some r)
  have "\<exists>vs ps. escape_inv vs ps \<and>
            (r = NotFound \<and> ps = [] \<or>
             (\<exists>p \<in> set ps. r = Found p \<and> to_tuple (last p) = (0, 0)) \<or>
             r = Raised OverflowError \<and>
               (\<exists>p \<in> set ps. 2 ^ 1024 - 2 ^ 970 \<le> sqdist (0, 0) (to_tuple (last p))))"
  proof (rule dfs_loop_invariant [where I = escape_inv])
    show "dfs_loop open_field (0, 0) {} [[state_of (2, 0)]] = Some r" by (rule Some)
    show "escape_inv {} [[state_of (2, 0)]]" by (rule escape_inv_init)
    show "\<forall>p \<in> set ps. p \<noteq> []" if "escape_inv vs ps" for vs ps
      using that unfolding escape_inv_def by blast
    show "escape_inv (insert (last (ps ! i)) vs)
           ((take i ps @ drop (Suc i) ps) @
              successor_paths open_field (insert (last (ps ! i)) vs) (ps ! i))"
      if "escape_inv vs ps" and "i < length ps" for vs ps i
      using that by (rule escape_inv_step)
  qed
  then obtain vs ps where inv: "escape_inv vs ps"
    and r: "r = NotFound \<and> ps = [] \<or>
            (\<exists>p \<in> set ps. r = Found p \<and> to_tuple (last p) = (0, 0)) \<or>
            r = Raised OverflowError \<and>
              (\<exists>p \<in> set ps. 2 ^ 1024 - 2 ^ 970 \<le> sqdist (0, 0) (to_tuple (last p)))"
    by blast
  from r show ?thesis
  proof (elim disjE)
    assume "r = NotFound \<and> ps = []"
    with inv show ?thesis unfolding escape_inv_def by simp
  next
    assume "\<exists>p \<in> set ps. r = Found p \<and> to_tuple (last p) = (0, 0)"
    then obtain p where p: "p \<in> set ps" "to_tuple (last p) = (0, 0)" by blast
    from inv p(1) have "far (last p)" unfolding escape_inv_def by blast
    with p(2) show ?thesis by (simp add: far_def to_tuple_def)
  next
    assume "r = Raised OverflowError \<and>
              (\<exists>p \<in> set ps. 2 ^ 1024 - 2 ^ 970 \<le> sqdist (0, 0) (to_tuple (last p)))"
    with Some show ?thesis by simp
  qed
qed

lemma open_field_unreachable:
  "state_of (0, 0) \<notin> reachable open_field (state_of (2, 0))"
proof
  assume g: "state_of (0, 0) \<in> reachable open_field (state_of (2, 0))"
  have "far s" if "s \<in> reachable open_field (state_of (2, 0))" for s
    using that
  proof induction
    case reachable_start
    show ?case by (simp add: far_def state_of_def)
  next
    case (reachable_step s t)
    then show ?case using far_step by blast
  qed
  from this [OF g] show False by (simp add: far_def state_of_def)
qed

subsection \<open>The extent of an enclosed field\<close>

text \<open>
  When finitely many states are reachable, the topmost reachable state of a column has a
  boundary cell above it, and the rightmost one of a row has a boundary cell to its
  right: every column and every row of the reachable part holds a boundary cell.
\<close>

lemma column_has_boundary:
  assumes fin: "finite (reachable sd start)" and s: "s \<in> reachable sd start"
  shows "x s \<in> fst ` set (FIELD_BOUNDARIES sd)"
proof -
  let ?C = "{t \<in> reachable sd start. x t = x s}"
  from fin have finC: "finite (y ` ?C)" by simp
  from s have neC: "y ` ?C \<noteq> {}" by blast
  from Max_in [OF finC neC] obtain t where t: "t \<in> reachable sd start" "x t = x s"
    "y t = Max (y ` ?C)" by auto
  let ?u = "\<lparr>x = x t, y = y t + 1\<rparr>"
  have "\<not> is_state_in_bounds ?u sd"
  proof
    assume "is_state_in_bounds ?u sd"
    with t(1) next_states_up have "?u \<in> reachable sd start" by (rule reachable.intros(2))
    moreover have "x ?u = x s" using t(2) by simp
    ultimately have "?u \<in> ?C" by simp
    then have "y ?u \<in> y ` ?C" by (rule imageI)
    from Max_ge [OF finC this] t(3) show False by simp
  qed
  then have "(x s, y t + 1) \<in> set (FIELD_BOUNDARIES sd)"
    using t(2) by (simp add: is_state_in_bounds_def)
  then have "fst (x s, y t + 1) \<in> fst ` set (FIELD_BOUNDARIES sd)" by (rule imageI)
  then show ?thesis by simp
qed

lemma row_has_boundary:
  assumes fin: "finite (reachable sd start)" and s: "s \<in> reachable sd start"
  shows "y s \<in> snd ` set (FIELD_BOUNDARIES sd)"
proof -
  let ?C = "{t \<in> reachable sd start. y t = y s}"
  from fin have finC: "finite (x ` ?C)" by simp
  from s have neC: "x ` ?C \<noteq> {}" by blast
  from Max_in [OF finC neC] obtain t where t: "t \<in> reachable sd start" "y t = y s"
    "x t = Max (x ` ?C)" by auto
  let ?u = "\<lparr>x = x t + 1, y = y t\<rparr>"
  have "\<not> is_state_in_bounds ?u sd"
  proof
    assume "is_state_in_bounds ?u sd"
    with t(1) next_states_right have "?u \<in> reachable sd start" by (rule reachable.intros(2))
    moreover have "y ?u = y s" using t(2) by simp
    ultimately have "?u \<in> ?C" by simp
    then have "x ?u \<in> x ` ?C" by (rule imageI)
    from Max_ge [OF finC this] t(3) show False by simp
  qed
  then have "(x t + 1, y s) \<in> set (FIELD_BOUNDARIES sd)"
    using t(2) by (simp add: is_state_in_bounds_def)
  then have "snd (x t + 1, y s) \<in> snd ` set (FIELD_BOUNDARIES sd)" by (rule imageI)
  then show ?thesis by simp
qed

text \<open>The columns, and the rows, of the reachable part are consecutive.\<close>

lemma between_step:
  fixes a b b' c :: int
  assumes "b' = b \<or> b' = b - 1 \<or> b' = b + 1"
    and "min a b' \<le> c" and "c \<le> max a b'"
  shows "c = b' \<or> min a b \<le> c \<and> c \<le> max a b"
  using assms by (auto simp: min_def max_def split: if_splits)

lemma columns_connected:
  assumes "s \<in> reachable sd start"
  shows "min (x start) (x s) \<le> c \<Longrightarrow> c \<le> max (x start) (x s) \<Longrightarrow> c \<in> x ` reachable sd start"
  using assms
proof (induction arbitrary: c)
  case reachable_start
  then have "c = x start" by simp
  with reachable.intros(1) [of start sd] show ?case by blast
next
  case (reachable_step s t)
  from reachable.intros(2) [OF reachable_step.hyps] have t: "t \<in> reachable sd start" .
  from next_states_cases [OF reachable_step.hyps(2)]
  have "x t = x s \<or> x t = x s - 1 \<or> x t = x s + 1" by blast
  from between_step [OF this reachable_step.prems]
  show ?case
  proof
    assume "c = x t"
    with t show ?thesis by blast
  next
    assume "min (x start) (x s) \<le> c \<and> c \<le> max (x start) (x s)"
    then show ?thesis using reachable_step.IH by blast
  qed
qed

lemma rows_connected:
  assumes "s \<in> reachable sd start"
  shows "min (y start) (y s) \<le> c \<Longrightarrow> c \<le> max (y start) (y s) \<Longrightarrow> c \<in> y ` reachable sd start"
  using assms
proof (induction arbitrary: c)
  case reachable_start
  then have "c = y start" by simp
  with reachable.intros(1) [of start sd] show ?case by blast
next
  case (reachable_step s t)
  from reachable.intros(2) [OF reachable_step.hyps] have t: "t \<in> reachable sd start" .
  from next_states_cases [OF reachable_step.hyps(2)]
  have "y t = y s \<or> y t = y s - 1 \<or> y t = y s + 1" by blast
  from between_step [OF this reachable_step.prems]
  show ?case
  proof
    assume "c = y t"
    with t show ?thesis by blast
  next
    assume "min (y start) (y s) \<le> c \<and> c \<le> max (y start) (y s)"
    then show ?thesis using reachable_step.IH by blast
  qed
qed

lemma between_two:
  fixes a b b' c :: int
  assumes "min b b' \<le> c" and "c \<le> max b b'"
  shows "min a b \<le> c \<and> c \<le> max a b \<or> min a b' \<le> c \<and> c \<le> max a b'"
  using assms by (auto simp: min_def max_def split: if_splits)

lemma interval_card:
  fixes a b :: int
  assumes "{min a b..max a b} \<subseteq> f ` set bs"
  shows "\<bar>a - b\<bar> < int (length bs)"
proof -
  have "card {min a b..max a b} \<le> card (f ` set bs)"
    by (rule card_mono [OF _ assms]) simp
  also have "\<dots> \<le> card (set bs)" by (rule card_image_le) simp
  also have "\<dots> \<le> length bs" by (rule card_length)
  finally have "card {min a b..max a b} \<le> length bs" .
  moreover have "card {min a b..max a b} = nat (\<bar>a - b\<bar> + 1)"
    by (simp add: min_def max_def)
  ultimately show ?thesis by linarith
qed

text \<open>
  So two reachable states differ, in each coordinate, by less than the number of
  boundary cells.
\<close>

lemma reachable_span:
  assumes fin: "finite (reachable sd start)"
    and s: "s \<in> reachable sd start" and g: "g \<in> reachable sd start"
  shows "\<bar>x g - x s\<bar> < int (length (FIELD_BOUNDARIES sd))"
    and "\<bar>y g - y s\<bar> < int (length (FIELD_BOUNDARIES sd))"
proof -
  have "{min (x g) (x s)..max (x g) (x s)} \<subseteq> fst ` set (FIELD_BOUNDARIES sd)"
  proof
    fix c assume "c \<in> {min (x g) (x s)..max (x g) (x s)}"
    then have "min (x g) (x s) \<le> c" "c \<le> max (x g) (x s)" by simp_all
    from between_two [OF this, of "x start"] columns_connected [OF g] columns_connected [OF s]
    have "c \<in> x ` reachable sd start" by blast
    with column_has_boundary [OF fin] show "c \<in> fst ` set (FIELD_BOUNDARIES sd)" by blast
  qed
  then show "\<bar>x g - x s\<bar> < int (length (FIELD_BOUNDARIES sd))" by (rule interval_card)
  have "{min (y g) (y s)..max (y g) (y s)} \<subseteq> snd ` set (FIELD_BOUNDARIES sd)"
  proof
    fix c assume "c \<in> {min (y g) (y s)..max (y g) (y s)}"
    then have "min (y g) (y s) \<le> c" "c \<le> max (y g) (y s)" by simp_all
    from between_two [OF this, of "y start"] rows_connected [OF g] rows_connected [OF s]
    have "c \<in> y ` reachable sd start" by blast
    with row_has_boundary [OF fin] show "c \<in> snd ` set (FIELD_BOUNDARIES sd)" by blast
  qed
  then show "\<bar>y g - y s\<bar> < int (length (FIELD_BOUNDARIES sd))" by (rule interval_card)
qed

lemma square_below:
  fixes d k :: int
  assumes "\<bar>d\<bar> < k"
  shows "d\<^sup>2 < k\<^sup>2"
proof -
  from assms have "\<bar>d\<bar>\<^sup>2 < k\<^sup>2" by (intro power_strict_mono) simp_all
  then show ?thesis by simp
qed

lemma enclosed_numeral: "((2::int) ^ 511)\<^sup>2 + (2 ^ 511)\<^sup>2 < 2 ^ 1024 - 2 ^ 970"
  by simp

text \<open>
  With fewer than \<open>2 ^ 511\<close> boundary cells, no distance between reachable states is
  beyond the double range.
\<close>

lemma enclosed_in_range:
  assumes fin: "finite (reachable sd start)"
    and goal: "state_of goal \<in> reachable sd start"
    and len: "length (FIELD_BOUNDARIES sd) < 2 ^ 511"
    and s: "s \<in> reachable sd start"
  shows "sqdist goal (to_tuple s) < 2 ^ 1024 - 2 ^ 970"
proof -
  define k where "k = int (length (FIELD_BOUNDARIES sd))"
  define K :: int where "K = 2 ^ 511"
  from len have "int (length (FIELD_BOUNDARIES sd)) < int (2 ^ 511)"
    by (simp only: of_nat_less_iff)
  then have kK: "k < K" by (simp add: k_def K_def)
  from reachable_span [OF fin s goal]
  have "\<bar>fst goal - x s\<bar> < k" "\<bar>snd goal - y s\<bar> < k"
    by (simp_all add: k_def state_of_def)
  with kK have d: "\<bar>fst goal - x s\<bar> < K" "\<bar>snd goal - y s\<bar> < K" by simp_all
  have "(fst goal - x s)\<^sup>2 < K\<^sup>2" "(snd goal - y s)\<^sup>2 < K\<^sup>2"
    by (rule square_below [OF d(1)], rule square_below [OF d(2)])
  then have "(fst goal - x s)\<^sup>2 + (snd goal - y s)\<^sup>2 < K\<^sup>2 + K\<^sup>2"
    by (rule add_strict_mono)
  also have "\<dots> < 2 ^ 1024 - 2 ^ 970" unfolding K_def by (rule enclosed_numeral)
  finally show ?thesis by (simp add: sqdist_def to_tuple_def)
qed

subsection \<open>The planner's plans\<close>

lemma start_state_of:
  "\<lparr>x = fst (PLAYER_LOCATION sd), y = snd (PLAYER_LOCATION sd)\<rparr> = state_of (PLAYER_LOCATION sd)"
  by (simp add: state_of_def)

lemma dfs_solve_cases:
  assumes "dfs_solve_path_to_goal a sd goal = Some (e, a')"
  shows "(\<exists>p. dfs_loop sd goal {} [[state_of (PLAYER_LOCATION sd)]] = Some (Found p) \<and>
              e = None \<and> a' = a\<lparr>path := p\<rparr>) \<or>
         (dfs_loop sd goal {} [[state_of (PLAYER_LOCATION sd)]] = Some NotFound \<and>
              e = None \<and> a' = a) \<or>
         (dfs_loop sd goal {} [[state_of (PLAYER_LOCATION sd)]] = Some (Raised OverflowError) \<and>
              e = Some OverflowError \<and> a' = a)"
proof -
  let ?run = "dfs_loop sd goal {} [[state_of (PLAYER_LOCATION sd)]]"
  from assms obtain r where r: "?run = Some r"
    by (cases ?run) (simp_all add: dfs_solve_path_to_goal_def Let_def start_state_of)
  from dfs_loop_valid [OF r] assms r show ?thesis
    by (auto simp: dfs_solve_path_to_goal_def Let_def start_state_of)
qed

lemma dfs_solve_plan:
  assumes "path a = []" and "dfs_solve_path_to_goal a sd goal = Some (e, a')"
    and "path a' \<noteq> []"
  shows "valid_plan sd (state_of (PLAYER_LOCATION sd)) (path a') \<and>
         to_tuple (last (path a')) = goal"
proof -
  from dfs_solve_cases [OF assms(2)] assms(1,3) obtain p where
    p: "dfs_loop sd goal {} [[state_of (PLAYER_LOCATION sd)]] = Some (Found p)" "a' = a\<lparr>path := p\<rparr>"
    by auto
  from dfs_loop_valid [OF p(1)] p(2) show ?thesis by simp
qed

lemma step_is_unit_move:
  assumes "t \<in> set (list_all_next_possible_states s)" and "t \<noteq> s"
  shows "\<exists>mv \<in> {UP, DOWN, LEFT, RIGHT}. get_next_state_from_move s mv = to_tuple t"
proof -
  from assms(1) obtain mv where mv: "get_next_state_from_move s mv = to_tuple t"
    unfolding next_states_iff ..
  from assms(2) have ne: "to_tuple t \<noteq> to_tuple s" by (auto simp: to_tuple_def)
  from mv ne show ?thesis by (cases mv) (auto simp: to_tuple_def)
qed

lemma dfs_solve_succeeds:
  assumes fin: "finite (reachable sd (state_of (PLAYER_LOCATION sd)))"
    and goal: "state_of goal \<in> reachable sd (state_of (PLAYER_LOCATION sd))"
    and len: "length (FIELD_BOUNDARIES sd) < 2 ^ 511"
  shows "\<exists>p. p \<noteq> [] \<and> dfs_solve_path_to_goal a sd goal = Some (None, a\<lparr>path := p\<rparr>)"
proof -
  let ?run = "dfs_loop sd goal {} [[state_of (PLAYER_LOCATION sd)]]"
  from dfs_loop_terminates_bounded [OF fin] obtain r where r: "?run = Some r" ..
  have "\<forall>s \<in> reachable sd (state_of (PLAYER_LOCATION sd)).
          sqdist goal (to_tuple s) < 2 ^ 1024 - 2 ^ 970"
    using enclosed_in_range [OF fin goal len] by blast
  from dfs_loop_in_range [OF r this] have "r \<noteq> Raised OverflowError" .
  with dfs_loop_complete [OF r goal] dfs_loop_valid [OF r] obtain p where
    p: "r = Found p" "valid_plan sd (state_of (PLAYER_LOCATION sd)) p" by blast
  from p(2) have "p \<noteq> []" by (simp add: valid_plan_def)
  moreover from r p(1) have "dfs_solve_path_to_goal a sd goal = Some (None, a\<lparr>path := p\<rparr>)"
    by (simp add: dfs_solve_path_to_goal_def Let_def start_state_of)
  ultimately show ?thesis by blast
qed

lemma dfs_solve_fails:
  assumes fin: "finite (reachable sd (state_of (PLAYER_LOCATION sd)))"
    and goal: "state_of goal \<notin> reachable sd (state_of (PLAYER_LOCATION sd))"
    and range: "\<forall>s \<in> reachable sd (state_of (PLAYER_LOCATION sd)).
                  sqdist goal (to_tuple s) < 2 ^ 1024 - 2 ^ 970"
  shows "dfs_solve_path_to_goal a sd goal = Some (None, a)"
proof -
  let ?run = "dfs_loop sd goal {} [[state_of (PLAYER_LOCATION sd)]]"
  from dfs_loop_terminates_bounded [OF fin] obtain r where r: "?run = Some r" ..
  have "r = NotFound"
  proof (rule ccontr)
    assume "r \<noteq> NotFound"
    with dfs_loop_valid [OF r] dfs_loop_in_range [OF r range]
    obtain p where p: "r = Found p" "to_tuple (last p) = goal"
      by blast
    from r p(1) have "last p \<in> reachable sd (state_of (PLAYER_LOCATION sd))"
      by (simp add: dfs_loop_reachable)
    moreover from p(2) have "last p = state_of goal" by (simp add: to_tuple_eq_iff)
    ultimately show False using goal by simp
  qed
  with r show ?thesis by (simp add: dfs_solve_path_to_goal_def Let_def start_state_of)
qed

text \<open>
  Claim C1. The planner is called on an agent without a plan. If it returns with a
  non-empty stored plan, the plan starts at the player's location, ends at the goal, and
  every two consecutive states differ by the delta of one of the moves \<open>NONE\<close>, \<open>UP\<close>,
  \<open>DOWN\<close>, \<open>LEFT\<close>, \<open>RIGHT\<close>. On a bounded field, where finitely many states are
  reachable from the player's location without entering a boundary cell, with the goal
  among them, the planner returns and stores a non-empty plan. The boundary list is taken
  to hold fewer than \<open>2 ^ 511\<close> cells, as every list in memory does: the reachable part
  then spans less than \<open>2 ^ 511\<close> in each direction, and no distance leaves the double
  range.
\<close>

theorem planner_plan_correct:
  "(path a = [] \<longrightarrow> dfs_solve_path_to_goal a sd goal = Some (e, a') \<longrightarrow> path a' \<noteq> [] \<longrightarrow>
      to_tuple (hd (path a')) = PLAYER_LOCATION sd \<and>
      to_tuple (last (path a')) = goal \<and>
      (\<forall>i. Suc i < length (path a') \<longrightarrow>
         (\<exists>mv \<in> {NONE, UP, DOWN, LEFT, RIGHT}.
            get_next_state_from_move (path a' ! i) mv = to_tuple (path a' ! Suc i)))) \<and>
   (finite (reachable sd (state_of (PLAYER_LOCATION sd))) \<longrightarrow>
    state_of goal \<in> reachable sd (state_of (PLAYER_LOCATION sd)) \<longrightarrow>
    length (FIELD_BOUNDARIES sd) < 2 ^ 511 \<longrightarrow>
      (\<exists>p. p \<noteq> [] \<and> dfs_solve_path_to_goal a sd goal = Some (None, a\<lparr>path := p\<rparr>)))"
proof (intro conjI impI)
  assume h: "path a = []" "dfs_solve_path_to_goal a sd goal = Some (e, a')" "path a' \<noteq> []"
  from dfs_solve_plan [OF h] have v: "valid_plan sd (state_of (PLAYER_LOCATION sd)) (path a')"
    and l: "to_tuple (last (path a')) = goal" by simp_all
  from v show "to_tuple (hd (path a')) = PLAYER_LOCATION sd" by (simp add: valid_plan_def)
  from l show "to_tuple (last (path a')) = goal" .
  show "\<forall>i. Suc i < length (path a') \<longrightarrow>
         (\<exists>mv \<in> {NONE, UP, DOWN, LEFT, RIGHT}.
            get_next_state_from_move (path a' ! i) mv = to_tuple (path a' ! Suc i))"
  proof (intro allI impI)
    fix i assume "Suc i < length (path a')"
    with v have "path a' ! Suc i \<in> set (list_all_next_possible_states (path a' ! i))"
      and "path a' ! Suc i \<noteq> path a' ! i" by (simp_all add: valid_plan_def)
    from step_is_unit_move [OF this]
    show "\<exists>mv \<in> {NONE, UP, DOWN, LEFT, RIGHT}.
            get_next_state_from_move (path a' ! i) mv = to_tuple (path a' ! Suc i)" by blast
  qed
next
  assume "finite (reachable sd (state_of (PLAYER_LOCATION sd)))"
    and "state_of goal \<in> reachable sd (state_of (PLAYER_LOCATION sd))"
    and "length (FIELD_BOUNDARIES sd) < 2 ^ 511"
  then show "\<exists>p. p \<noteq> [] \<and> dfs_solve_path_to_goal a sd goal = Some (None, a\<lparr>path := p\<rparr>)"
    by (rule dfs_solve_succeeds)
qed

text \<open>
  Claim C7, as amended. On a bounded field (finitely many states are reachable from the
  player's location without entering a boundary cell) with the goal not among the
  reachable states, and with every reachable state at a squared distance from the goal
  below \<open>2 ^ 1024 - 2 ^ 970\<close>, where \<open>math.sqrt\<close> does not overflow, the planner returns,
  without an exception and with the agent, its empty plan included, as it was: the
  failure the source reports by its warning.
\<close>

theorem planner_fails_on_bounded_field:
  "finite (reachable sd (state_of (PLAYER_LOCATION sd))) \<Longrightarrow>
   state_of goal \<notin> reachable sd (state_of (PLAYER_LOCATION sd)) \<Longrightarrow>
   \<forall>s \<in> reachable sd (state_of (PLAYER_LOCATION sd)).
      sqdist goal (to_tuple s) < 2 ^ 1024 - 2 ^ 970 \<Longrightarrow>
     dfs_solve_path_to_goal a sd goal = Some (None, a)"
  by (rule dfs_solve_fails)

text \<open>
  Claim C8. Every state of a plan produced by the planner, the first one apart, is not a
  field boundary cell.
\<close>

theorem plan_avoids_boundaries:
  "path a = [] \<Longrightarrow> dfs_solve_path_to_goal a sd goal = Some (e, a') \<Longrightarrow>
     \<forall>s \<in> set (tl (path a')). (x s, y s) \<notin> set (FIELD_BOUNDARIES sd)"
proof
  fix s
  assume h: "path a = []" "dfs_solve_path_to_goal a sd goal = Some (e, a')"
    and s: "s \<in> set (tl (path a'))"
  then have ne: "path a' \<noteq> []" by auto
  from dfs_solve_plan [OF h ne] have v: "valid_plan sd (state_of (PLAYER_LOCATION sd)) (path a')"
    by simp
  from s obtain j where j: "j < length (tl (path a'))" "s = tl (path a') ! j"
    by (auto simp: in_set_conv_nth)
  then have "Suc j < length (path a')" and "s = path a' ! Suc j"
    by (simp_all add: nth_tl)
  with v have "is_state_in_bounds s sd" by (simp add: valid_plan_def)
  then show "(x s, y s) \<notin> set (FIELD_BOUNDARIES sd)" by (simp add: is_state_in_bounds_def)
qed

text \<open>
  Claim C9. Two consecutive states of a plan produced by the planner are never equal, and
  the second is reached from the first by one of the unit moves \<open>UP\<close>, \<open>DOWN\<close>,
  \<open>LEFT\<close>, \<open>RIGHT\<close>.
\<close>

theorem plan_steps_are_unit_moves:
  "path a = [] \<Longrightarrow> dfs_solve_path_to_goal a sd goal = Some (e, a') \<Longrightarrow>
     Suc i < length (path a') \<Longrightarrow>
       path a' ! Suc i \<noteq> path a' ! i \<and>
       (\<exists>mv \<in> {UP, DOWN, LEFT, RIGHT}.
          get_next_state_from_move (path a' ! i) mv = to_tuple (path a' ! Suc i))"
proof -
  assume h: "path a = []" "dfs_solve_path_to_goal a sd goal = Some (e, a')"
    and i: "Suc i < length (path a')"
  then have ne: "path a' \<noteq> []" by auto
  from dfs_solve_plan [OF h ne] have v: "valid_plan sd (state_of (PLAYER_LOCATION sd)) (path a')"
    by simp
  with i have 1: "path a' ! Suc i \<in> set (list_all_next_possible_states (path a' ! i))"
    and 2: "path a' ! Suc i \<noteq> path a' ! i" by (simp_all add: valid_plan_def)
  from step_is_unit_move [OF 1 2] 2 show ?thesis by blast
qed

subsection \<open>The planner on concrete fields\<close>

lemma state_of_eq_iff: "t = state_of c \<longleftrightarrow> x t = fst c \<and> y t = snd c"
  by (cases t) (auto simp: state_of_def)

lemma corridor_bounds:
  "is_state_in_bounds t corridor \<longleftrightarrow>
     (x t, y t) \<notin> {(- 1, 0), (2, 0), (0, 1), (1, 1), (0, - 1), (1, - 1)}"
  by (simp add: is_state_in_bounds_def corridor_def snapshot_def)

lemma walled_in_bounds:
  "is_state_in_bounds t walled_in \<longleftrightarrow> (x t, y t) \<notin> {(1, 0), (- 1, 0), (0, 1), (0, - 1)}"
  by (simp add: is_state_in_bounds_def walled_in_def snapshot_def)

lemma corridor_goal_reachable: "state_of (1, 0) \<in> reachable corridor (state_of (0, 0))"
proof (rule reachable_step [OF reachable_start])
  have "state_of (1, 0) = \<lparr>x = x (state_of (0, 0)) + 1, y = y (state_of (0, 0))\<rparr>"
    by (simp add: state_of_def)
  then show "state_of (1, 0) \<in> set (list_all_next_possible_states (state_of (0, 0)))"
    by (simp only: next_states_right)
  show "is_state_in_bounds (state_of (1, 0)) corridor"
    by (simp add: corridor_bounds state_of_def)
qed

lemma grid_step_corridor:
  fixes a b c d :: int
  assumes "a = 0 \<and> b = 0 \<or> a = 1 \<and> b = 0"
    and "c = a \<and> d = b \<or> c = a \<and> d = b + 1 \<or> c = a \<and> d = b - 1 \<or>
         c = a - 1 \<and> d = b \<or> c = a + 1 \<and> d = b"
    and "(c, d) \<notin> {(- 1, 0), (2, 0), (0, 1), (1, 1), (0, - 1), (1, - 1)}"
  shows "c = 0 \<and> d = 0 \<or> c = 1 \<and> d = 0"
proof -
  from assms(3) have n: "\<not> (c = - 1 \<and> d = 0)" "\<not> (c = 2 \<and> d = 0)" "\<not> (c = 0 \<and> d = 1)"
    "\<not> (c = 1 \<and> d = 1)" "\<not> (c = 0 \<and> d = - 1)" "\<not> (c = 1 \<and> d = - 1)" by simp_all
  from assms(1,2) n show ?thesis by presburger
qed

lemma corridor_reachable:
  "reachable corridor (state_of (0, 0)) \<subseteq> {state_of (0, 0), state_of (1, 0)}"
proof
  fix s assume "s \<in> reachable corridor (state_of (0, 0))"
  then show "s \<in> {state_of (0, 0), state_of (1, 0)}"
  proof induction
    case reachable_start
    show ?case by simp
  next
    case (reachable_step s t)
    from reachable_step.IH have s: "x s = 0 \<and> y s = 0 \<or> x s = 1 \<and> y s = 0"
      by (simp add: state_of_eq_iff)
    from reachable_step.hyps(3) have b: "(x t, y t) \<notin> {(- 1, 0), (2, 0), (0, 1), (1, 1), (0, - 1), (1, - 1)}"
      unfolding corridor_bounds .
    from grid_step_corridor [OF s next_states_cases [OF reachable_step.hyps(2)] b]
    show ?case by (simp add: state_of_eq_iff)
  qed
qed

lemma grid_step_walled_in:
  fixes a b c d :: int
  assumes "a = 0 \<and> b = 0"
    and "c = a \<and> d = b \<or> c = a \<and> d = b + 1 \<or> c = a \<and> d = b - 1 \<or>
         c = a - 1 \<and> d = b \<or> c = a + 1 \<and> d = b"
    and "(c, d) \<notin> {(1, 0), (- 1, 0), (0, 1), (0, - 1)}"
  shows "c = 0 \<and> d = 0"
proof -
  from assms(3) have n: "\<not> (c = 1 \<and> d = 0)" "\<not> (c = - 1 \<and> d = 0)" "\<not> (c = 0 \<and> d = 1)"
    "\<not> (c = 0 \<and> d = - 1)" by simp_all
  from assms(1,2) n show ?thesis by presburger
qed

lemma walled_in_reachable: "reachable walled_in (state_of (0, 0)) \<subseteq> {state_of (0, 0)}"
proof
  fix s assume "s \<in> reachable walled_in (state_of (0, 0))"
  then show "s \<in> {state_of (0, 0)}"
  proof induction
    case reachable_start
    show ?case by simp
  next
    case (reachable_step s t)
    from reachable_step.IH have s: "x s = 0 \<and> y s = 0"
      by (simp add: state_of_eq_iff)
    from reachable_step.hyps(3) have b: "(x t, y t) \<notin> {(1, 0), (- 1, 0), (0, 1), (0, - 1)}"
      unfolding walled_in_bounds .
    from grid_step_walled_in [OF s next_states_cases [OF reachable_step.hyps(2)] b]
    show ?case by (simp add: state_of_eq_iff)
  qed
qed

theorem planner_plan_correct_witness:
  "path (init 0 False) = [] \<and>
   finite (reachable corridor (state_of (PLAYER_LOCATION corridor))) \<and>
   state_of (1, 0) \<in> reachable corridor (state_of (PLAYER_LOCATION corridor)) \<and>
   length (FIELD_BOUNDARIES corridor) < 2 ^ 511 \<and>
   (\<exists>p. p \<noteq> [] \<and>
        dfs_solve_path_to_goal (init 0 False) corridor (1, 0) =
          Some (None, (init 0 False)\<lparr>path := p\<rparr>) \<and>
        to_tuple (hd p) = PLAYER_LOCATION corridor \<and> to_tuple (last p) = (1, 0) \<and>
        (\<exists>mv \<in> {NONE, UP, DOWN, LEFT, RIGHT}.
            get_next_state_from_move (p ! 0) mv = to_tuple (p ! Suc 0)))"
proof -
  have pl: "PLAYER_LOCATION corridor = (0, 0)" by (simp add: corridor_def snapshot_def)
  have h0: "path (init 0 False) = []" by (simp add: init_def)
  have h1: "finite (reachable corridor (state_of (PLAYER_LOCATION corridor)))"
    unfolding pl by (rule finite_subset [OF corridor_reachable]) simp
  have h2: "state_of (1, 0) \<in> reachable corridor (state_of (PLAYER_LOCATION corridor))"
    unfolding pl by (rule corridor_goal_reachable)
  have h3: "length (FIELD_BOUNDARIES corridor) < 2 ^ 511"
    by (simp add: corridor_def snapshot_def)
  from planner_plan_correct [of "init 0 False" corridor "(1, 0)"] h1 h2 h3 obtain p where
    p: "p \<noteq> []"
       "dfs_solve_path_to_goal (init 0 False) corridor (1, 0) =
          Some (None, (init 0 False)\<lparr>path := p\<rparr>)"
    by blast
  have pp: "path ((init 0 False)\<lparr>path := p\<rparr>) = p" by simp
  from planner_plan_correct [of "init 0 False" corridor "(1, 0)" None "(init 0 False)\<lparr>path := p\<rparr>"]
    h0 p pp
  have q: "to_tuple (hd p) = PLAYER_LOCATION corridor" "to_tuple (last p) = (1, 0)"
    "\<forall>i. Suc i < length p \<longrightarrow>
         (\<exists>mv \<in> {NONE, UP, DOWN, LEFT, RIGHT}.
            get_next_state_from_move (p ! i) mv = to_tuple (p ! Suc i))"
    by simp_all
  from q(1,2) pl have "hd p \<noteq> last p" by auto
  with p(1) have "Suc 0 < length p"
    by (cases p) (auto split: if_splits)
  with q(3) have "\<exists>mv \<in> {NONE, UP, DOWN, LEFT, RIGHT}.
            get_next_state_from_move (p ! 0) mv = to_tuple (p ! Suc 0)" by blast
  with h0 h1 h2 h3 p q(1,2) show ?thesis by blast
qed

lemma walled_in_reachable_eq:
  "reachable walled_in (state_of (PLAYER_LOCATION walled_in)) = {state_of (0, 0)}"
proof -
  have pl: "PLAYER_LOCATION walled_in = (0, 0)" by (simp add: walled_in_def snapshot_def)
  have "state_of (0, 0) \<in> reachable walled_in (state_of (0, 0))" by (rule reachable_start)
  with walled_in_reachable show ?thesis unfolding pl by blast
qed

theorem planner_fails_on_bounded_field_witness:
  "finite (reachable walled_in (state_of (PLAYER_LOCATION walled_in))) \<and>
   state_of (5, 5) \<notin> reachable walled_in (state_of (PLAYER_LOCATION walled_in)) \<and>
   reachable walled_in (state_of (PLAYER_LOCATION walled_in)) = {state_of (0, 0)} \<and>
   sqdist (5, 5) (to_tuple (state_of (0, 0))) < 2 ^ 1024 - 2 ^ 970 \<and>
   dfs_solve_path_to_goal (init 0 False) walled_in (5, 5) = Some (None, init 0 False)"
proof -
  note eq = walled_in_reachable_eq
  have h1: "finite (reachable walled_in (state_of (PLAYER_LOCATION walled_in)))"
    unfolding eq by simp
  have "state_of (5, 5) \<noteq> state_of (0, 0)" by (simp add: state_of_def)
  then have h2: "state_of (5, 5) \<notin> reachable walled_in (state_of (PLAYER_LOCATION walled_in))"
    unfolding eq by simp
  have h3: "sqdist (5, 5) (to_tuple (state_of (0, 0))) < 2 ^ 1024 - 2 ^ 970"
    by (simp add: sqdist_def)
  then have h4: "\<forall>s \<in> reachable walled_in (state_of (PLAYER_LOCATION walled_in)).
      sqdist (5, 5) (to_tuple s) < 2 ^ 1024 - 2 ^ 970"
    unfolding eq by simp
  from planner_fails_on_bounded_field [OF h1 h2 h4, of "init 0 False"] h1 h2 eq h3
  show ?thesis by (intro conjI)
qed

text \<open>
  Claim C7 as stated fails here, twice. On the first field the goal is enclosed by four
  boundary cells and the field around them is unbounded: no path to the goal exists and
  the worklist never empties, so the planner never returns normally: it runs on, or ends
  in \<open>OverflowError\<close> once a distance leaves the double range. On the second field the
  player is enclosed and the goal is far away: no path exists, one state is reachable,
  and the first distance computed raises \<open>OverflowError\<close>.
\<close>

theorem planner_no_failure_report_counterexample:
  "state_of (0, 0) \<notin> reachable open_field (state_of (PLAYER_LOCATION open_field)) \<and>
   dfs_solve_path_to_goal (init 0 False) open_field (0, 0)
     \<in> {None, Some (Some OverflowError, init 0 False)} \<and>
   finite (reachable walled_in (state_of (PLAYER_LOCATION walled_in))) \<and>
   state_of (10 ^ 200, 0) \<notin> reachable walled_in (state_of (PLAYER_LOCATION walled_in)) \<and>
   dfs_solve_path_to_goal (init 0 False) walled_in (10 ^ 200, 0) =
     Some (Some OverflowError, init 0 False)"
proof (intro conjI)
  have pl: "PLAYER_LOCATION open_field = (2, 0)" by (simp add: open_field_def snapshot_def)
  from open_field_unreachable
  show "state_of (0, 0) \<notin> reachable open_field (state_of (PLAYER_LOCATION open_field))"
    by (simp add: pl)
  have st: "\<lparr>x = fst (PLAYER_LOCATION open_field), y = snd (PLAYER_LOCATION open_field)\<rparr> =
        state_of (2, 0)" by (simp add: pl state_of_def)
  from open_field_never_fails
  show "dfs_solve_path_to_goal (init 0 False) open_field (0, 0)
     \<in> {None, Some (Some OverflowError, init 0 False)}"
  proof
    assume "dfs_loop open_field (0, 0) {} [[state_of (2, 0)]] = None"
    then show ?thesis by (simp add: dfs_solve_path_to_goal_def st)
  next
    assume "dfs_loop open_field (0, 0) {} [[state_of (2, 0)]] = Some (Raised OverflowError)"
    then show ?thesis by (simp add: dfs_solve_path_to_goal_def st)
  qed
next
  show "finite (reachable walled_in (state_of (PLAYER_LOCATION walled_in)))"
    unfolding walled_in_reachable_eq by simp
  have "state_of (10 ^ 200, 0) \<noteq> state_of (0, 0)" by (simp add: state_of_def)
  then show "state_of (10 ^ 200, 0) \<notin> reachable walled_in (state_of (PLAYER_LOCATION walled_in))"
    unfolding walled_in_reachable_eq by simp
  have pl: "PLAYER_LOCATION walled_in = (0, 0)" by (simp add: walled_in_def snapshot_def)
  have st: "\<lparr>x = fst (PLAYER_LOCATION walled_in), y = snd (PLAYER_LOCATION walled_in)\<rparr> =
        state_of (0, 0)" by (simp add: pl state_of_def)
  have "2 ^ 1024 - 2 ^ 970 \<le> sqdist (10 ^ 200, 0) (to_tuple (last [state_of (0, 0)]))"
    by (simp add: sqdist_def)
  then have "\<exists>p \<in> set [[state_of (0, 0)]].
      2 ^ 1024 - 2 ^ 970 \<le> sqdist (10 ^ 200, 0) (to_tuple (last p))" by simp
  then have "node_dists [[state_of (0, 0)]] (10 ^ 200, 0) = Inl OverflowError"
    by (intro node_dists_overflow) simp_all
  then have "select_open_node [[state_of (0, 0)]] (10 ^ 200, 0) = Inl OverflowError"
    by (simp add: select_open_node_def)
  then have "dfs_loop walled_in (10 ^ 200, 0) {} [[state_of (0, 0)]] = Some (Raised OverflowError)"
    by (rule dfs_loop_raise) simp
  then show "dfs_solve_path_to_goal (init 0 False) walled_in (10 ^ 200, 0) =
     Some (Some OverflowError, init 0 False)"
    by (simp add: dfs_solve_path_to_goal_def st)
qed

theorem plan_avoids_boundaries_witness:
  "path (init 0 False) = [] \<and>
   dfs_solve_path_to_goal (init 0 False) detour (2, 0) =
     Some (None, agent_with [\<lparr>x = 0, y = 0\<rparr>, \<lparr>x = 0, y = - 1\<rparr>, \<lparr>x = 1, y = - 1\<rparr>,
                            \<lparr>x = 2, y = - 1\<rparr>, \<lparr>x = 2, y = 0\<rparr>] 0) \<and>
   (1, 0) \<in> set (FIELD_BOUNDARIES detour) \<and>
   list_all (\<lambda>s. (x s, y s) \<notin> set (FIELD_BOUNDARIES detour))
     [\<lparr>x = 0, y = - 1\<rparr>, \<lparr>x = 1, y = - 1\<rparr>, \<lparr>x = 2, y = - 1\<rparr>, \<lparr>x = 2, y = 0\<rparr>]"
proof -
  let ?a' = "agent_with [\<lparr>x = 0, y = 0\<rparr>, \<lparr>x = 0, y = - 1\<rparr>, \<lparr>x = 1, y = - 1\<rparr>,
                            \<lparr>x = 2, y = - 1\<rparr>, \<lparr>x = 2, y = 0\<rparr>] 0"
  have h0: "path (init 0 False) = []" by (simp add: init_def)
  have run: "dfs_solve_path_to_goal (init 0 False) detour (2, 0) = Some (None, ?a')"
    by (simp add: eval_defs detour_def)
  have b: "(1, 0) \<in> set (FIELD_BOUNDARIES detour)" by (simp add: detour_def snapshot_def)
  from plan_avoids_boundaries [OF h0 run]
  have "\<forall>s \<in> set (tl (path ?a')). (x s, y s) \<notin> set (FIELD_BOUNDARIES detour)" .
  then have "list_all (\<lambda>s. (x s, y s) \<notin> set (FIELD_BOUNDARIES detour)) (tl (path ?a'))"
    by (simp only: list_all_iff)
  then have "list_all (\<lambda>s. (x s, y s) \<notin> set (FIELD_BOUNDARIES detour))
     [\<lparr>x = 0, y = - 1\<rparr>, \<lparr>x = 1, y = - 1\<rparr>, \<lparr>x = 2, y = - 1\<rparr>, \<lparr>x = 2, y = 0\<rparr>]"
    by (simp add: agent_with_def init_def)
  with h0 run b show ?thesis by blast
qed

theorem plan_steps_are_unit_moves_witness:
  "path (init 0 False) = [] \<and>
   dfs_solve_path_to_goal (init 0 False) (snapshot [] [] (0, 0) [(0, 2)]) (0, 2) =
     Some (None, agent_with [\<lparr>x = 0, y = 0\<rparr>, \<lparr>x = 0, y = 1\<rparr>, \<lparr>x = 0, y = 2\<rparr>] 0) \<and>
   \<lparr>x = 0, y = 2\<rparr> \<noteq> \<lparr>x = 0, y = 1\<rparr> \<and>
   (\<exists>mv \<in> {UP, DOWN, LEFT, RIGHT}.
      get_next_state_from_move \<lparr>x = 0, y = 1\<rparr> mv = to_tuple \<lparr>x = 0, y = 2\<rparr>)"
proof -
  let ?a' = "agent_with [\<lparr>x = 0, y = 0\<rparr>, \<lparr>x = 0, y = 1\<rparr>, \<lparr>x = 0, y = 2\<rparr>] 0"
  have h0: "path (init 0 False) = []" by (simp add: init_def)
  have run: "dfs_solve_path_to_goal (init 0 False) (snapshot [] [] (0, 0) [(0, 2)]) (0, 2) =
      Some (None, ?a')"
    by (simp add: eval_defs)
  have len: "Suc 1 < length (path ?a')" by (simp add: agent_with_def init_def)
  from plan_steps_are_unit_moves [OF h0 run len]
  have "path ?a' ! Suc 1 \<noteq> path ?a' ! 1 \<and>
       (\<exists>mv \<in> {UP, DOWN, LEFT, RIGHT}.
          get_next_state_from_move (path ?a' ! 1) mv = to_tuple (path ?a' ! Suc 1))" .
  then have "\<lparr>x = 0, y = 2\<rparr> \<noteq> \<lparr>x = 0, y = 1\<rparr> \<and>
   (\<exists>mv \<in> {UP, DOWN, LEFT, RIGHT}.
      get_next_state_from_move \<lparr>x = 0, y = 1\<rparr> mv = to_tuple \<lparr>x = 0, y = 2\<rparr>)"
    by (simp add: agent_with_def init_def)
  with h0 run show ?thesis by blast
qed

end
